theory Spec2Isabelle
  imports Main "HOL-Library.Word" "HOL-Library.Char_ord" "HOL-Library.List_Lexorder"
    "HOL-Library.Product_Lexorder" "HOL-Library.Multiset" "HOL-Library.Sublist"
    "HOL-Library.AList"
begin

section \<open>Configuration model (internal/config)\<close>

text \<open>
  Go strings are byte sequences; they are modelled by \<open>string\<close>, whose characters are
  bytes.  The comparison \<open><\<close> of Go strings is the bytewise lexicographic order, which is
  the order of \<open>HOL-Library.List_Lexorder\<close> over \<open>HOL-Library.Char_ord\<close>.
  A nil pointer \<open>*DockerConfig\<close> is \<open>None\<close>.
\<close>

record VersionSet =
  Versions :: "string list"

record RuntimeConfig =
  Dotnet :: VersionSet
  Node :: VersionSet

record DockerConfig =
  Enabled :: bool
  Repository :: string
  Tags :: "string list"
  Push :: bool
  Registries :: "string list"
  Dockerfile :: string

record MatrixEntry =
  EntryPath :: string
  Type :: string
  Frameworks :: "string list"
  NodeVersions :: "string list"
  PackageManager :: string
  BuildScripts :: "string list"
  Docker :: "DockerConfig option"

record DefaultSection =
  Concurrency :: int
  ArtifactDir :: string

record Root =
  Runtime :: RuntimeConfig
  Matrix :: "MatrixEntry list"
  Defaults :: DefaultSection

section \<open>Matrix planner (internal/planner)\<close>

record Task =
  Path :: string
  Kind :: string
  Version :: string

record Plan =
  Tasks :: "Task list"

text \<open>
  The body of the loop of \<open>Expand\<close> for one matrix entry that passed the selection
  filter: the \<open>switch m.Type\<close> with its two cases; any other type appends nothing.
\<close>

definition entryTasks :: "Root \<Rightarrow> MatrixEntry \<Rightarrow> Task list" where
  "entryTasks cfg m =
     (if Type m = ''dotnet'' then
        (let versions = (if length (Frameworks m) = 0 then Versions (Dotnet (Runtime cfg))
                         else Frameworks m)
         in map (\<lambda>v. \<lparr>Path = EntryPath m, Kind = ''dotnet'', Version = v\<rparr>)
              (filter (\<lambda>v. v \<noteq> '''') versions))
      else if Type m = ''node'' then
        (let versions = (if length (NodeVersions m) = 0 then Versions (Node (Runtime cfg))
                         else NodeVersions m)
         in map (\<lambda>v. \<lparr>Path = EntryPath m, Kind = ''node'', Version = v\<rparr>)
              (filter (\<lambda>v. v \<noteq> '''') versions))
      else [])"

text \<open>
  The task sequence before sorting.  \<open>selected\<close> is a Go map used as a set: only its
  size and membership are read.
\<close>

definition collectTasks :: "Root \<Rightarrow> string set \<Rightarrow> Task list" where
  "collectTasks cfg selected =
     concat (map (entryTasks cfg)
       (filter (\<lambda>m. \<not> (selected \<noteq> {} \<and> EntryPath m \<notin> selected)) (Matrix cfg)))"

text \<open>The closure handed to \<open>sort.Slice\<close>.\<close>

definition lessTask :: "Task \<Rightarrow> Task \<Rightarrow> bool" where
  "lessTask a b =
     (if Path a = Path b then
        (if Kind a = Kind b then Version a < Version b else Kind a < Kind b)
      else Path a < Path b)"

text \<open>
  \<open>sort.Slice\<close> is the standard library's (unstable) sort: it returns a permutation of
  the slice in which no element is \<open>less\<close> than an earlier one.  It is modelled by
  insertion sort; \<open>sortSlice_unique\<close> below shows that for \<open>lessTask\<close> every
  permutation with that property is the same list, so the choice of algorithm is
  immaterial.
\<close>

fun insertSlice :: "('a \<Rightarrow> 'a \<Rightarrow> bool) \<Rightarrow> 'a \<Rightarrow> 'a list \<Rightarrow> 'a list" where
  "insertSlice lt x [] = [x]"
| "insertSlice lt x (y # ys) = (if lt x y then x # y # ys else y # insertSlice lt x ys)"

fun sortSlice :: "('a \<Rightarrow> 'a \<Rightarrow> bool) \<Rightarrow> 'a list \<Rightarrow> 'a list" where
  "sortSlice lt [] = []"
| "sortSlice lt (x # xs) = insertSlice lt x (sortSlice lt xs)"

definition Expand :: "Root \<Rightarrow> string set \<Rightarrow> Plan" where
  "Expand cfg selected = \<lparr>Tasks = sortSlice lessTask (collectTasks cfg selected)\<rparr>"

text \<open>The order the specification names: by path, then kind, then version, ascending.\<close>

definition taskOrder :: "Task \<Rightarrow> Task \<Rightarrow> bool" where
  "taskOrder a b =
     (Path a < Path b \<or> (Path a = Path b \<and>
        (Kind a < Kind b \<or> (Kind a = Kind b \<and> Version a \<le> Version b))))"

text \<open>The sort key the specification names, as a triple under the lexicographic order.\<close>

definition taskKey :: "Task \<Rightarrow> string \<times> string \<times> string" where
  "taskKey t = (Path t, Kind t, Version t)"

text \<open>
  Scenario B of the specification, with the matrix entries and the versions given in
  descending order so that sorting has work to do.
\<close>

definition scenarioB :: Root where
  "scenarioB =
     \<lparr>Runtime = \<lparr>Dotnet = \<lparr>Versions = []\<rparr>, Node = \<lparr>Versions = [''18.20.2'']\<rparr>\<rparr>,
      Matrix =
        [\<lparr>EntryPath = ''web'', Type = ''node'', Frameworks = [], NodeVersions = [],
          PackageManager = '''', BuildScripts = [], Docker = None\<rparr>,
         \<lparr>EntryPath = ''api'', Type = ''dotnet'', Frameworks = [''8.0.100'', ''6.0.415''],
          NodeVersions = [], PackageManager = '''', BuildScripts = [], Docker = None\<rparr>],
      Defaults = \<lparr>Concurrency = 0, ArtifactDir = ''''\<rparr>\<rparr>"

section \<open>Paths (path/filepath, strings)\<close>

text \<open>
  The functions of the Go standard library that the program calls on path strings are
  transcribed for Unix paths: \<open>strings.Split(s, "/")\<close>, \<open>strings.Join(elems, "/")\<close>,
  \<open>strings.Contains\<close>, \<open>filepath.Clean\<close>, \<open>filepath.Join\<close> and \<open>filepath.Dir\<close>.
\<close>

fun splitSlash :: "string \<Rightarrow> string list" where
  "splitSlash [] = [[]]"
| "splitSlash (c # cs) =
     (if c = CHR ''/'' then [] # splitSlash cs
      else (case splitSlash cs of [] \<Rightarrow> [[c]] | w # ws \<Rightarrow> (c # w) # ws))"

fun joinSlash :: "string list \<Rightarrow> string" where
  "joinSlash [] = []"
| "joinSlash [x] = x"
| "joinSlash (x # y # r) = x @ CHR ''/'' # joinSlash (y # r)"

fun Contains :: "string \<Rightarrow> string \<Rightarrow> bool" where
  "Contains [] substr = (substr = [])"
| "Contains (c # cs) substr = (prefix substr (c # cs) \<or> Contains cs substr)"

definition isRooted :: "string \<Rightarrow> bool" where
  "isRooted p = (case p of [] \<Rightarrow> False | c # _ \<Rightarrow> c = CHR ''/'')"

text \<open>
  One element of the path in \<open>filepath.Clean\<close>: an empty element and \<open>.\<close> are dropped,
  \<open>..\<close> removes the element before it when there is one that is not itself \<open>..\<close>, is
  dropped at the root of a rooted path, and is kept otherwise.
\<close>

definition cleanStep :: "bool \<Rightarrow> string list \<Rightarrow> string \<Rightarrow> string list" where
  "cleanStep rooted out e =
     (if e = '''' \<or> e = ''.'' then out
      else if e = ''..'' then
        (if out \<noteq> [] \<and> last out \<noteq> ''..'' then butlast out
         else if rooted then out
         else out @ [''..''])
      else out @ [e])"

definition Clean :: "string \<Rightarrow> string" where
  "Clean p =
     (let out = foldl (cleanStep (isRooted p)) [] (splitSlash p)
      in if isRooted p then CHR ''/'' # joinSlash out
         else if out = [] then ''.''
         else joinSlash out)"

text \<open>
  \<open>filepath.Join\<close> skips leading empty elements, joins the rest with a slash and cleans
  the result; with no non-empty element it returns the empty string.
\<close>

definition Join :: "string list \<Rightarrow> string" where
  "Join elem =
     (case dropWhile (\<lambda>e. e = '''') elem of
        [] \<Rightarrow> ''''
      | e # es \<Rightarrow> Clean (joinSlash (e # es)))"

definition Dir :: "string \<Rightarrow> string" where
  "Dir p = Clean (rev (dropWhile (\<lambda>c. c \<noteq> CHR ''/'') (rev p)))"

section \<open>The file system\<close>

text \<open>
  The state that \<open>os\<close> and \<open>filepath.Walk\<close> read and write.  A file system is an
  association list from absolute paths (lists of names below the root directory) to
  entries; an entry is a regular file with its bytes, or a directory.  The root
  directory \<open>[]\<close> always exists.  The states meant are directory trees: the parent of
  every entry is a directory, and names are non-empty, contain no slash and are not
  \<open>.\<close> or \<open>..\<close>.  Symbolic links, permissions and I/O faults of the device are outside the
  model.  The working directory \<open>cwd\<close> is the absolute path of an existing directory.
\<close>

datatype entry = File string | Directory

type_synonym fs = "(string list \<times> entry) list"

datatype errno = ENOENT | ENOTDIR | EISDIR

definition lookup :: "fs \<Rightarrow> string list \<Rightarrow> entry option" where
  "lookup s p = (if p = [] then Some Directory else map_of s p)"

definition isFile :: "entry option \<Rightarrow> bool" where
  "isFile e = (case e of Some (File _) \<Rightarrow> True | _ \<Rightarrow> False)"

text \<open>
  The absolute path a path string names for a process whose working directory is \<open>cwd\<close>,
  with \<open>..\<close> resolved lexically.  This is where the operating system arrives for a path
  in the form \<open>filepath.Clean\<close> returns, in which \<open>..\<close> can only lead a relative path.
  Every path the program hands to the \<open>os\<close> package has that form: they are results of
  \<open>filepath.Join\<close> and \<open>filepath.Dir\<close>.  For other strings, such as \<open>nope/../x\<close> where
  \<open>nope\<close> does not exist, the operating system walks the directories and fails or
  creates where this function does not; the properties of \<open>Store\<close> and \<open>Restore\<close> below,
  which take the paths of their directories as arguments, are therefore stated for
  paths in cleaned form.
\<close>

definition resolve :: "string list \<Rightarrow> string \<Rightarrow> string list" where
  "resolve cwd p = foldl (cleanStep True) (if isRooted p then [] else cwd) (splitSlash p)"

text \<open>\<open>os.Lstat\<close> and \<open>os.Stat\<close> (equal without symbolic links).\<close>

definition Lstat :: "string list \<Rightarrow> fs \<Rightarrow> string \<Rightarrow> errno + entry" where
  "Lstat cwd s p =
     (if p = '''' then Inl ENOENT
      else (case lookup s (resolve cwd p) of
              Some e \<Rightarrow> Inr e
            | None \<Rightarrow>
                if list_ex (\<lambda>q. isFile (lookup s q)) (prefixes (resolve cwd p))
                then Inl ENOTDIR else Inl ENOENT))"

text \<open>
  \<open>os.MkdirAll\<close>: nothing to do for a directory; an error when the path or one of its
  parents is a regular file; otherwise every missing directory of the path is created.
\<close>

definition mkdirAll :: "fs \<Rightarrow> string list \<Rightarrow> errno + fs" where
  "mkdirAll s p =
     (if list_ex (\<lambda>q. isFile (lookup s q)) (prefixes p) then Inl ENOTDIR
      else Inr (foldl (\<lambda>t q. if lookup t q = None then AList.update q Directory t else t)
                  s (prefixes p)))"

definition MkdirAll :: "string list \<Rightarrow> fs \<Rightarrow> string \<Rightarrow> errno + fs" where
  "MkdirAll cwd s p = (if p = '''' then Inl ENOENT else mkdirAll s (resolve cwd p))"

text \<open>
  \<open>os.Create\<close> (and the open of \<open>os.WriteFile\<close>): the parent must be a directory and the
  path must not be one; the file is created or truncated.
\<close>

definition createFile :: "fs \<Rightarrow> string list \<Rightarrow> errno + fs" where
  "createFile s p =
     (if p = [] then Inl EISDIR
      else (case lookup s (butlast p) of
              None \<Rightarrow> Inl ENOENT
            | Some (File _) \<Rightarrow> Inl ENOTDIR
            | Some Directory \<Rightarrow>
                (case lookup s p of
                   Some Directory \<Rightarrow> Inl EISDIR
                 | _ \<Rightarrow> Inr (AList.update p (File []) s))))"

definition Create :: "string list \<Rightarrow> fs \<Rightarrow> string \<Rightarrow> errno + fs" where
  "Create cwd s p = (if p = '''' then Inl ENOENT else createFile s (resolve cwd p))"

text \<open>Reading all bytes of an open file; a directory cannot be read.\<close>

definition readAll :: "string list \<Rightarrow> fs \<Rightarrow> string \<Rightarrow> errno + string" where
  "readAll cwd s p =
     (case Lstat cwd s p of
        Inl e \<Rightarrow> Inl e
      | Inr Directory \<Rightarrow> Inl EISDIR
      | Inr (File b) \<Rightarrow> Inr b)"

text \<open>Writing bytes to the file just created at a path.\<close>

definition writeAll :: "string list \<Rightarrow> fs \<Rightarrow> string \<Rightarrow> string \<Rightarrow> fs" where
  "writeAll cwd s p b = AList.update (resolve cwd p) (File b) s"

text \<open>
  The paths \<open>filepath.Walk\<close> visits below a root that exists, in the order it visits them:
  the root first, then the entries of each directory in the order of their names, each
  directory before its entries.  That is the lexicographic order of the paths as lists of
  names.  The entries are those of the tree when the walk starts: the walk is modelled for
  a function that does not write below the root it walks.
\<close>

definition walkPaths :: "fs \<Rightarrow> string list \<Rightarrow> string list list" where
  "walkPaths s root =
     (if lookup s root = Some Directory
      then sort (remdups (root # filter (prefix root) (map fst s)))
      else [root])"

text \<open>
  A name of a directory entry: not empty, not \<open>.\<close> or \<open>..\<close>, without a slash.  An element
  that \<open>filepath.Clean\<close> keeps is proper: not empty, not \<open>.\<close>, without a slash.
\<close>

definition validName :: "string \<Rightarrow> bool" where
  "validName n = (n \<noteq> '''' \<and> n \<noteq> ''.'' \<and> n \<noteq> ''..'' \<and> CHR ''/'' \<notin> set n)"

definition properElem :: "string \<Rightarrow> bool" where
  "properElem e = (e \<noteq> '''' \<and> e \<noteq> ''.'' \<and> CHR ''/'' \<notin> set e)"

text \<open>
  A state whose paths are made of names: the working directory and every path of the
  file system.
\<close>

definition validFs :: "string list \<Rightarrow> fs \<Rightarrow> bool" where
  "validFs cwd s = (list_all validName cwd \<and> list_all (\<lambda>(p, e). list_all validName p) s)"

text \<open>
  A state that is closed under parents: with every entry it holds an entry for each path
  above it (in a directory tree these are its parent directories).
\<close>

definition closedFs :: "fs \<Rightarrow> bool" where
  "closedFs s = list_all (\<lambda>(p, e). list_all (\<lambda>q. lookup s q \<noteq> None) (prefixes p)) s"

text \<open>Two directories neither of which lies in the other.\<close>

definition apart :: "string list \<Rightarrow> string list \<Rightarrow> bool" where
  "apart p q = (\<not> prefix p q \<and> \<not> prefix q p)"

section \<open>Errors\<close>

text \<open>
  Every error value the modelled code constructs.  \<open>OsError\<close> is an error of the
  \<open>os\<close> package; the other constructors follow the messages of \<open>fmt.Errorf\<close> and wrap
  the error they were built from.
\<close>

datatype error =
    OsError errno
  | PathTraversal string
  | InvalidSourcePath error
  | InvalidDestinationPath error
  | CreateCacheDir error
  | CreateDestDir error
  | CacheKeyNotFound string
  | WriteManifestError error
  | InvalidRepositoryName string
  | InvalidDockerTag string
  | SecurityCheckFailed error
  | DockerBuildFailed string
  | DockerTagFailed string
  | TagForRegistryFailed string
  | PushFailed string string
  | PushImagesFailed error
  | RunnerError string

section \<open>Build cache (internal/cache)\<close>

definition validatePath :: "string \<Rightarrow> error option" where
  "validatePath p =
     (let cleanPath = Clean p
      in if Contains cleanPath ''..'' then Some (PathTraversal p) else None)"

text \<open>\<open>Exists\<close>: \<open>os.Stat\<close> of the manifest below the key's directory succeeds.\<close>

definition Exists :: "string list \<Rightarrow> fs \<Rightarrow> string \<Rightarrow> bool" where
  "Exists cwd s key =
     (let cacheDir = Join [''.buildcache'', key];
          manifestPath = Join [cacheDir, ''manifest.json'']
      in (case Lstat cwd s manifestPath of Inl _ \<Rightarrow> False | Inr _ \<Rightarrow> True))"

text \<open>
  \<open>copyFile\<close>.  The result is the error returned (\<open>None\<close> for nil) and the file system
  left behind.  \<open>io.Copy\<close> reads the source after the destination has been created, so
  the bytes are read from the state in which the destination is already truncated.
\<close>

definition copyFile :: "string list \<Rightarrow> fs \<Rightarrow> string \<Rightarrow> string \<Rightarrow> error option \<times> fs" where
  "copyFile cwd s src dest =
     (case validatePath src of
        Some e \<Rightarrow> (Some (InvalidSourcePath e), s)
      | None \<Rightarrow>
     (case validatePath dest of
        Some e \<Rightarrow> (Some (InvalidDestinationPath e), s)
      | None \<Rightarrow>
     (case Lstat cwd s src of
        Inl e \<Rightarrow> (Some (OsError e), s)
      | Inr _ \<Rightarrow>
     (case MkdirAll cwd s (Dir dest) of
        Inl e \<Rightarrow> (Some (OsError e), s)
      | Inr s1 \<Rightarrow>
     (case Create cwd s1 dest of
        Inl e \<Rightarrow> (Some (OsError e), s1)
      | Inr s2 \<Rightarrow>
     (case readAll cwd s2 src of
        Inl e \<Rightarrow> (Some (OsError e), s2)
      | Inr b \<Rightarrow> (None, writeAll cwd s2 dest b)))))))"

text \<open>
  The function \<open>copyDir\<close> hands to \<open>filepath.Walk\<close>, at the visited absolute path \<open>p\<close>
  below the root \<open>root = resolve cwd src\<close>.  \<open>names\<close> are the names from the root down to
  \<open>p\<close>; the path string Walk passes is \<open>src\<close> itself for the root and
  \<open>Join (src # names)\<close> below it, and \<open>filepath.Rel(src, path)\<close> is \<open>.\<close> for the root and
  the names joined by slashes below it.  \<open>snapshot\<close> is the tree when the walk started,
  from which Walk took the entry's kind.
\<close>

definition copyVisit ::
  "string list \<Rightarrow> fs \<Rightarrow> string \<Rightarrow> string \<Rightarrow> string list \<Rightarrow> fs \<Rightarrow> error option \<times> fs" where
  "copyVisit cwd snapshot src dest p s =
     (let names = drop (length (resolve cwd src)) p;
          path = (if names = [] then src else Join (src # names));
          relPath = (if names = [] then ''.'' else joinSlash names);
          destPath = Join [dest, relPath]
      in if lookup snapshot p = Some Directory then
           (case MkdirAll cwd s destPath of
              Inl e \<Rightarrow> (Some (OsError e), s)
            | Inr s' \<Rightarrow> (None, s'))
         else copyFile cwd s path destPath)"

text \<open>The walk stops at the first error its function returns.\<close>

fun copyWalk ::
  "string list \<Rightarrow> fs \<Rightarrow> string \<Rightarrow> string \<Rightarrow> string list list \<Rightarrow> fs \<Rightarrow> error option \<times> fs" where
  "copyWalk cwd snapshot src dest [] s = (None, s)"
| "copyWalk cwd snapshot src dest (p # ps) s =
     (case copyVisit cwd snapshot src dest p s of
        (Some e, s') \<Rightarrow> (Some e, s')
      | (None, s') \<Rightarrow> copyWalk cwd snapshot src dest ps s')"

text \<open>
  \<open>copyDir\<close>: when \<open>os.Lstat\<close> of the root fails, Walk calls the function with that
  error, which returns it.
\<close>

definition copyDir :: "string list \<Rightarrow> fs \<Rightarrow> string \<Rightarrow> string \<Rightarrow> error option \<times> fs" where
  "copyDir cwd s src dest =
     (case Lstat cwd s src of
        Inl e \<Rightarrow> (Some (OsError e), s)
      | Inr _ \<Rightarrow> copyWalk cwd s src dest (walkPaths s (resolve cwd src)) s)"

definition Store :: "string list \<Rightarrow> fs \<Rightarrow> string \<Rightarrow> string \<Rightarrow> error option \<times> fs" where
  "Store cwd s key sourceDir =
     (let cacheDir = Join [''.buildcache'', key]
      in (case MkdirAll cwd s cacheDir of
            Inl e \<Rightarrow> (Some (CreateCacheDir (OsError e)), s)
          | Inr s1 \<Rightarrow> copyDir cwd s1 sourceDir cacheDir))"

definition Restore :: "string list \<Rightarrow> fs \<Rightarrow> string \<Rightarrow> string \<Rightarrow> error option \<times> fs" where
  "Restore cwd s key destDir =
     (let cacheDir = Join [''.buildcache'', key]
      in if \<not> Exists cwd s key then (Some (CacheKeyNotFound key), s)
         else (case MkdirAll cwd s destDir of
                 Inl e \<Rightarrow> (Some (CreateDestDir (OsError e)), s)
               | Inr s1 \<Rightarrow> copyDir cwd s1 cacheDir destDir))"

section \<open>Cache key (internal/cache)\<close>

text \<open>
  What the program takes from outside the repository is a parameter of the model:
  \<^item> \<open>sha256\<close>: the hash function \<open>crypto/sha256\<close>, from the bytes written to the
    256-bit digest (read as a big-endian number);
  \<^item> \<open>Glob\<close>: \<open>filepath.Glob\<close>, as a function of the file system and the pattern (its
    error is discarded by the caller);
  \<^item> \<open>RunTask\<close>: the delegated build \<open>runner.RunTask\<close>, which runs the toolchain in a
    container: given the task, the workspace root, the package manager and the build
    scripts it returns an error or nil and leaves a file system behind;
  \<^item> \<open>dockerCmd\<close>: the outcome of running \<open>docker\<close> with the given arguments: \<open>None\<close>
    when it exits with status 0, the message of the error otherwise;
  \<^item> \<open>marshalIndent\<close>: \<open>json.MarshalIndent\<close> of a manifest;
  \<^item> \<open>elapsedMs\<close> and \<open>timeNow\<close>: the readings of the clock.
\<close>

record Manifest =
  Project :: string
  ManifestKind :: string
  Toolchain :: string
  ManifestVersion :: string
  Hash :: string
  BuildTimeMs :: int
  Reused :: bool
  CreatedAt :: string

record World =
  sha256 :: "string \<Rightarrow> 256 word"
  Glob :: "fs \<Rightarrow> string \<Rightarrow> string list"
  RunTask :: "Task \<Rightarrow> string \<Rightarrow> string \<Rightarrow> string list \<Rightarrow> fs \<Rightarrow> error option \<times> fs"
  dockerCmd :: "string list \<Rightarrow> string option"
  marshalIndent :: "Manifest \<Rightarrow> string"
  elapsedMs :: "Task \<Rightarrow> int"
  timeNow :: string

definition findLockFiles :: "World \<Rightarrow> string list \<Rightarrow> fs \<Rightarrow> string \<Rightarrow> string \<Rightarrow> string list" where
  "findLockFiles w cwd s projectDir kind =
     (if kind = ''dotnet'' then
        concat (map (\<lambda>pattern. Glob w s (Join [projectDir, pattern]))
          [''*.csproj'', ''*.fsproj'', ''*.vbproj'', ''packages.lock.json''])
      else if kind = ''node'' then
        filter (\<lambda>file. case Lstat cwd s file of Inl _ \<Rightarrow> False | Inr _ \<Rightarrow> True)
          [Join [projectDir, ''package.json''],
           Join [projectDir, ''package-lock.json''],
           Join [projectDir, ''yarn.lock''],
           Join [projectDir, ''pnpm-lock.yaml'']]
      else [])"

text \<open>
  The bytes of one lock file as \<open>Key\<close> feeds them to the hash: none when the path
  fails \<open>validatePath\<close> or \<open>os.ReadFile\<close> fails.
\<close>

definition lockBytes :: "string list \<Rightarrow> fs \<Rightarrow> string \<Rightarrow> string" where
  "lockBytes cwd s lockFile =
     (case validatePath lockFile of
        Some _ \<Rightarrow> []
      | None \<Rightarrow> (case readAll cwd s lockFile of Inl _ \<Rightarrow> [] | Inr content \<Rightarrow> content))"

text \<open>Everything written to the hash, in the order it is written.\<close>

definition keyInput :: "World \<Rightarrow> string list \<Rightarrow> fs \<Rightarrow> Task \<Rightarrow> string \<Rightarrow> string" where
  "keyInput w cwd s task workspaceRoot =
     (let projectDir = Join [workspaceRoot, Path task];
          lockFiles = sort (findLockFiles w cwd s projectDir (Kind task))
      in Kind task @ Version task @ Path task @ concat (map (lockBytes cwd s) lockFiles))"

text \<open>\<open>fmt.Sprintf("%x", digest)\<close>: two lower-case hexadecimal digits for each of the 32 bytes.\<close>

definition hexDigit :: "nat \<Rightarrow> char" where
  "hexDigit n = ''0123456789abcdef'' ! n"

definition lowerHex :: "char \<Rightarrow> bool" where
  "lowerHex c = (c \<in> set ''0123456789abcdef'')"

definition hexString :: "256 word \<Rightarrow> string" where
  "hexString d = map (\<lambda>i. hexDigit (unat (take_bit 4 (drop_bit (4 * (63 - i)) d)))) [0..<64]"

text \<open>
  \<open>Key\<close> returns the first 12 characters of the digest in hexadecimal and a nil error
  (\<open>None\<close>).  The slice expression \<open>[:12]\<close> is within range, since the string has 64
  characters.
\<close>

definition Key :: "World \<Rightarrow> string list \<Rightarrow> fs \<Rightarrow> Task \<Rightarrow> string \<Rightarrow> string \<times> error option" where
  "Key w cwd s task workspaceRoot =
     (take 12 (hexString (sha256 w (keyInput w cwd s task workspaceRoot))), None)"

text \<open>
  The paths whose state the key derivation can read for a task: what \<open>Glob\<close> returns for
  the four patterns, and the four candidate files of a Node project.
\<close>

definition lockCandidates :: "World \<Rightarrow> fs \<Rightarrow> Task \<Rightarrow> string \<Rightarrow> string list" where
  "lockCandidates w s task workspaceRoot =
     (let projectDir = Join [workspaceRoot, Path task]
      in concat (map (\<lambda>pattern. Glob w s (Join [projectDir, pattern]))
           [''*.csproj'', ''*.fsproj'', ''*.vbproj'', ''packages.lock.json''])
         @ [Join [projectDir, ''package.json''],
            Join [projectDir, ''package-lock.json''],
            Join [projectDir, ''yarn.lock''],
            Join [projectDir, ''pnpm-lock.yaml'']])"

section \<open>Manifest writer (internal/artifact)\<close>

text \<open>
  \<open>WriteManifest\<close>: create the output directory, stamp the time, marshal, write the file
  \<open>manifest.json\<close>.  Marshalling a struct of strings, an integer and a boolean does not
  fail.
\<close>

definition WriteManifest ::
  "World \<Rightarrow> string list \<Rightarrow> fs \<Rightarrow> string \<Rightarrow> Manifest \<Rightarrow> error option \<times> fs" where
  "WriteManifest w cwd s outDir m =
     (case MkdirAll cwd s outDir of
        Inl e \<Rightarrow> (Some (OsError e), s)
      | Inr s1 \<Rightarrow>
          (let data = marshalIndent w (m\<lparr>CreatedAt := timeNow w\<rparr>);
               path = Join [outDir, ''manifest.json'']
           in (case Create cwd s1 path of
                 Inl e \<Rightarrow> (Some (WriteManifestError (OsError e)), s1)
               | Inr s2 \<Rightarrow> (None, writeAll cwd s2 path data))))"

section \<open>Image publisher (internal/docker)\<close>

text \<open>
  The two regular expressions are \<open>^[a-zA-Z0-9._-]+$\<close> for a tag and
  \<open>^[a-zA-Z0-9._/-]+$\<close> for a repository: a non-empty string all of whose bytes are in
  the class.  (A byte outside ASCII is never in the class.)
\<close>

definition alnum :: "char \<Rightarrow> bool" where
  "alnum c = ((CHR ''a'' \<le> c \<and> c \<le> CHR ''z'') \<or> (CHR ''A'' \<le> c \<and> c \<le> CHR ''Z'') \<or>
              (CHR ''0'' \<le> c \<and> c \<le> CHR ''9''))"

definition tagChar :: "char \<Rightarrow> bool" where
  "tagChar c = (alnum c \<or> c = CHR ''.'' \<or> c = CHR ''_'' \<or> c = CHR ''-'')"

definition repoChar :: "char \<Rightarrow> bool" where
  "repoChar c = (alnum c \<or> c = CHR ''.'' \<or> c = CHR ''_'' \<or> c = CHR ''/'' \<or> c = CHR ''-'')"

definition validateDockerTag :: "string \<Rightarrow> error option" where
  "validateDockerTag tag =
     (if \<not> (tag \<noteq> [] \<and> list_all tagChar tag) \<or> prefix ''.'' tag \<or> prefix ''-'' tag
      then Some (InvalidDockerTag tag) else None)"

definition validateRepositoryName :: "string \<Rightarrow> error option" where
  "validateRepositoryName repo =
     (if \<not> (repo \<noteq> [] \<and> list_all repoChar repo)
      then Some (InvalidRepositoryName repo) else None)"

text \<open>
  External commands.  A step is the argument list of one \<open>docker\<close> command together with
  the error the program returns when the command fails.  \<open>runSteps\<close> runs steps in order
  up to the first failure and returns the error (or nil) and the argument lists of the
  commands that were started.
\<close>

fun runSteps ::
  "World \<Rightarrow> (string list \<times> error) list \<Rightarrow> error option \<times> string list list" where
  "runSteps w [] = (None, [])"
| "runSteps w ((args, err) # rest) =
     (case dockerCmd w args of
        Some msg \<Rightarrow> (Some err, [args])
      | None \<Rightarrow> (case runSteps w rest of (r, started) \<Rightarrow> (r, args # started)))"

text \<open>The first error of a validation over a list, as the loop over the tags returns it.\<close>

fun firstError :: "('a \<Rightarrow> error option) \<Rightarrow> 'a list \<Rightarrow> error option" where
  "firstError f [] = None"
| "firstError f (x # xs) = (case f x of Some e \<Rightarrow> Some e | None \<Rightarrow> firstError f xs)"

text \<open>
  The commands of the build loop: \<open>docker build\<close> with the first tag, then one
  \<open>docker tag\<close> for each further tag.
\<close>

definition buildSteps ::
  "string \<Rightarrow> string \<Rightarrow> string list \<Rightarrow> (string list \<times> error) list" where
  "buildSteps projectPath repo tags =
     (case tags of
        [] \<Rightarrow> []
      | tag0 # others \<Rightarrow>
          ([''build'', ''-t'', repo @ '':'' @ tag0, ''.''], DockerBuildFailed projectPath)
          # map (\<lambda>tag. ([''tag'', repo @ '':'' @ tag0, repo @ '':'' @ tag],
                         DockerTagFailed (repo @ '':'' @ tag))) others)"

text \<open>The commands of \<open>pushToRegistries\<close>, registry by registry and tag by tag.\<close>

definition pushSteps :: "DockerConfig \<Rightarrow> (string list \<times> error) list" where
  "pushSteps dc =
     (let registries = (if length (Registries dc) = 0 then [''docker.io''] else Registries dc);
          tags = (if length (Tags dc) = 0 then [''latest''] else Tags dc)
      in concat (map (\<lambda>registry. concat (map (\<lambda>tag.
           (let sourceTag = Repository dc @ '':'' @ tag;
                fullTag = (if registry = ''docker.io'' then sourceTag
                           else registry @ ''/'' @ Repository dc @ '':'' @ tag)
            in (if registry \<noteq> ''docker.io''
                then [([''tag'', sourceTag, fullTag], TagForRegistryFailed registry)]
                else [])
               @ [([''push'', fullTag], PushFailed fullTag registry)])) tags)) registries))"

definition pushToRegistries :: "World \<Rightarrow> DockerConfig \<Rightarrow> error option \<times> string list list" where
  "pushToRegistries w dc = runSteps w (pushSteps dc)"

text \<open>
  \<open>BuildAndPush\<close> returns its error and the external commands it started, in order.
  \<open>os.IsNotExist\<close> holds of the error \<open>ENOENT\<close> only.
\<close>

definition BuildAndPush ::
  "World \<Rightarrow> string list \<Rightarrow> fs \<Rightarrow> string \<Rightarrow> DockerConfig option \<Rightarrow> string
     \<Rightarrow> error option \<times> string list list" where
  "BuildAndPush w cwd s projectPath dockerConfig workspaceRoot =
     (case dockerConfig of
        None \<Rightarrow> (None, [])
      | Some dc \<Rightarrow>
     (if \<not> Enabled dc then (None, [])
      else
     (case validateRepositoryName (Repository dc) of
        Some e \<Rightarrow> (Some (SecurityCheckFailed e), [])
      | None \<Rightarrow>
     (let workDir = Join [workspaceRoot, projectPath];
          dockerfilePath = (if Dockerfile dc = '''' then Join [workDir, ''Dockerfile'']
                            else Join [workDir, Dockerfile dc])
      in if Lstat cwd s dockerfilePath = Inl ENOENT then (None, [])
         else
     (let tags = (if length (Tags dc) = 0 then [''latest''] else Tags dc)
      in (case firstError validateDockerTag tags of
            Some e \<Rightarrow> (Some (SecurityCheckFailed e), [])
          | None \<Rightarrow>
     (case runSteps w (buildSteps projectPath (Repository dc) tags) of
        (Some e, started) \<Rightarrow> (Some e, started)
      | (None, started) \<Rightarrow>
          if Push dc then
            (case pushToRegistries w dc of
               (Some e, pushed) \<Rightarrow> (Some (PushImagesFailed e), started @ pushed)
             | (None, pushed) \<Rightarrow> (None, started @ pushed))
          else (None, started))))))))"

section \<open>Scheduler and exit codes (main)\<close>

text \<open>The command-line flags that \<open>runBuild\<close> reads after the plan has been made.\<close>

record Flags =
  flagNoCache :: bool
  flagNoDocker :: bool
  flagPushImages :: bool
  flagDryRun :: bool
  flagOnly :: "string set"

text \<open>\<open>os.Getwd\<close>: the working directory as a path string.\<close>

definition Getwd :: "string list \<Rightarrow> string" where
  "Getwd cwd = CHR ''/'' # joinSlash cwd"

text \<open>
  What one task leaves behind: the error it sends to the error channel (\<open>None\<close> when it
  sends nothing), the manifest it hands to \<open>WriteManifest\<close> (\<open>None\<close> when it returns
  before), the errors it only logs, and the file system.
\<close>

record TaskOutcome =
  sent :: "error option"
  written :: "Manifest option"
  logged :: "error list"
  after :: fs

text \<open>
  The end of the task's function, from \<open>elapsed := time.Since(start)\<close> on: the manifest is
  written and the error of \<open>WriteManifest\<close> is discarded.
\<close>

definition finishTask ::
  "World \<Rightarrow> string list \<Rightarrow> fs \<Rightarrow> Task \<Rightarrow> string \<Rightarrow> string \<Rightarrow> bool \<Rightarrow> error list \<Rightarrow> TaskOutcome" where
  "finishTask w cwd s task outDir cacheKey reused warnings =
     (let m = \<lparr>Project = Path task, ManifestKind = Kind task, Toolchain = Kind task,
               ManifestVersion = Version task, Hash = cacheKey,
               BuildTimeMs = elapsedMs w task, Reused = reused, CreatedAt = ''''\<rparr>
      in \<lparr>sent = None, written = Some m, logged = warnings,
          after = snd (WriteManifest w cwd s outDir m)\<rparr>)"

text \<open>
  The first matrix entry with the task's path and kind gives the package manager, the
  build scripts and the Docker configuration (\<open>pkgMgr\<close>, \<open>scripts\<close> and \<open>dockerCfg\<close> of
  the source); without such an entry they are zero values.
\<close>

definition matrixEntryFor :: "Root \<Rightarrow> Task \<Rightarrow> MatrixEntry option" where
  "matrixEntryFor cfg task =
     find (\<lambda>me. EntryPath me = Path task \<and> Type me = Kind task) (Matrix cfg)"

definition pkgMgrOf :: "Root \<Rightarrow> Task \<Rightarrow> string" where
  "pkgMgrOf cfg task =
     (case matrixEntryFor cfg task of None \<Rightarrow> '''' | Some e \<Rightarrow> PackageManager e)"

definition scriptsOf :: "Root \<Rightarrow> Task \<Rightarrow> string list" where
  "scriptsOf cfg task =
     (case matrixEntryFor cfg task of None \<Rightarrow> [] | Some e \<Rightarrow> BuildScripts e)"

definition dockerCfgOf :: "Root \<Rightarrow> Task \<Rightarrow> DockerConfig option" where
  "dockerCfgOf cfg task =
     (case matrixEntryFor cfg task of None \<Rightarrow> None | Some e \<Rightarrow> Docker e)"

text \<open>
  The call of the image publisher in the function of a task, guarded by \<open>--no-docker\<close>
  and the \<open>enabled\<close> field; its error is logged and dropped.
\<close>

definition publishError ::
  "World \<Rightarrow> Flags \<Rightarrow> Root \<Rightarrow> string list \<Rightarrow> fs \<Rightarrow> Task \<Rightarrow> error option" where
  "publishError w fl cfg cwd s1 task =
     (case dockerCfgOf cfg task of
        None \<Rightarrow> None
      | Some dc \<Rightarrow>
          if \<not> flagNoDocker fl \<and> Enabled dc then
            fst (BuildAndPush w cwd s1 (Path task)
                   (Some (if flagPushImages fl then dc\<lparr>Push := True\<rparr> else dc))
                   (Getwd cwd))
          else None)"

text \<open>
  The function that \<open>runBuild\<close> starts for each task, from \<open>outDir := ...\<close> on, with the
  cache key it has derived.  With \<open>--push-images\<close> the configuration handed to the
  publisher has \<open>Push\<close> set.
\<close>

definition taskBody ::
  "World \<Rightarrow> Flags \<Rightarrow> Root \<Rightarrow> string list \<Rightarrow> fs \<Rightarrow> Task \<Rightarrow> string \<Rightarrow> TaskOutcome" where
  "taskBody w fl cfg cwd s task cacheKey =
     (let workspaceRoot = Getwd cwd;
          outDir = Join [''out'', Path task, Version task] in
      if \<not> flagNoCache fl \<and> Exists cwd s cacheKey then
        (case Restore cwd s cacheKey outDir of
           (Some err, s') \<Rightarrow> \<lparr>sent = Some err, written = None, logged = [], after = s'\<rparr>
         | (None, s') \<Rightarrow> finishTask w cwd s' task outDir cacheKey True [])
      else
     (let pkgMgr = pkgMgrOf cfg task;
          scripts = scriptsOf cfg task
      in case RunTask w task workspaceRoot pkgMgr scripts s of
           (Some runErr, s1) \<Rightarrow> \<lparr>sent = Some runErr, written = None, logged = [], after = s1\<rparr>
         | (None, s1) \<Rightarrow>
     (let dockerErr = publishError w fl cfg cwd s1 task;
          stored = (if \<not> flagNoCache fl then Store cwd s1 cacheKey outDir else (None, s1))
      in finishTask w cwd (snd stored) task outDir cacheKey False
           (List.map_filter id [dockerErr, fst stored]))))"

text \<open>
  The whole function: the cache key is derived first, and a failure of the derivation
  is sent to the error channel.
\<close>

definition buildTask ::
  "World \<Rightarrow> Flags \<Rightarrow> Root \<Rightarrow> string list \<Rightarrow> fs \<Rightarrow> Task \<Rightarrow> TaskOutcome" where
  "buildTask w fl cfg cwd s task =
     (case Key w cwd s task (Getwd cwd) of
        (cacheKey, Some err) \<Rightarrow> \<lparr>sent = Some err, written = None, logged = [], after = s\<rparr>
      | (cacheKey, None) \<Rightarrow> taskBody w fl cfg cwd s task cacheKey)"

text \<open>
  The loop over the plan.  The tasks are run one after the other in the order of the
  plan, which is what the program does with \<open>--concurrency 1\<close>; with more slots the
  functions of several tasks interleave, which is not modelled.
\<close>

fun runTasks ::
  "World \<Rightarrow> Flags \<Rightarrow> Root \<Rightarrow> string list \<Rightarrow> fs \<Rightarrow> Task list \<Rightarrow> TaskOutcome list" where
  "runTasks w fl cfg cwd s [] = []"
| "runTasks w fl cfg cwd s (t # ts) =
     (let r = buildTask w fl cfg cwd s t in r # runTasks w fl cfg cwd (after r) ts)"

text \<open>The errors in the channel when it is closed.\<close>

definition errCh :: "TaskOutcome list \<Rightarrow> error list" where
  "errCh rs = List.map_filter sent rs"

text \<open>Whether some task of the plan has a matrix entry whose Docker section is enabled.\<close>

definition hasDockerProjects :: "Root \<Rightarrow> Task list \<Rightarrow> bool" where
  "hasDockerProjects cfg tasks =
     list_ex (\<lambda>task. list_ex (\<lambda>me. EntryPath me = Path task \<and> Type me = Kind task \<and>
        (case Docker me of None \<Rightarrow> False | Some dc \<Rightarrow> Enabled dc)) (Matrix cfg)) tasks"

text \<open>
  \<open>runBuild\<close>, given the result of \<open>config.Load\<close> (the message of its error, or the
  configuration).  The result is the message of the error returned (\<open>None\<close> for nil)
  and what the tasks left behind.  The logins to the registries, whose errors are only
  logged, are left out.
\<close>

definition runBuild ::
  "World \<Rightarrow> Flags \<Rightarrow> string + Root \<Rightarrow> string list \<Rightarrow> fs \<Rightarrow> string option \<times> TaskOutcome list" where
  "runBuild w fl loaded cwd s =
     (case loaded of
        Inl msg \<Rightarrow> (Some (''load config: '' @ msg), [])
      | Inr cfg \<Rightarrow>
          if flagDryRun fl then (None, [])
          else
            (let plan = Expand cfg (flagOnly fl) in
             case (if \<not> flagNoDocker fl \<and> hasDockerProjects cfg (Tasks plan)
                   then dockerCmd w [''version''] else None) of
               Some msg \<Rightarrow>
                 (Some (''Docker is required but not available: '' @
                        ''Docker is not available or not running: '' @ msg), [])
             | None \<Rightarrow>
                 (let rs = runTasks w fl cfg cwd s (Tasks plan)
                  in if errCh rs \<noteq> [] then (Some ''one or more builds failed'', rs)
                     else (None, rs))))"

text \<open>The exit codes and the classification of \<open>fatal\<close>.\<close>

definition ExitSuccess :: nat where "ExitSuccess = 0"
definition ExitBuildFailure :: nat where "ExitBuildFailure = 1"
definition ExitConfigError :: nat where "ExitConfigError = 2"
definition ExitInternalError :: nat where "ExitInternalError = 3"

definition fatal :: "string \<Rightarrow> nat" where
  "fatal errStr =
     (if Contains errStr ''load config'' \<or> Contains errStr ''parse yaml'' \<or>
         Contains errStr ''config error''
      then ExitConfigError
      else if Contains errStr ''build failed'' \<or> Contains errStr ''one or more builds failed''
      then ExitBuildFailure
      else ExitInternalError)"

text \<open>The exit status of the process for the command \<open>build\<close>.\<close>

definition buildExit :: "World \<Rightarrow> Flags \<Rightarrow> string + Root \<Rightarrow> string list \<Rightarrow> fs \<Rightarrow> nat" where
  "buildExit w fl loaded cwd s =
     (case fst (runBuild w fl loaded cwd s) of
        None \<Rightarrow> ExitSuccess
      | Some errStr \<Rightarrow> fatal errStr)"

section \<open>Example inputs\<close>

text \<open>
  A world for the examples: a digest that tells the versions 18 and 20 of one Node
  project apart, no matches of \<open>Glob\<close>, a build that succeeds and leaves the file system
  as it is, \<open>docker\<close> commands that succeed.
\<close>

definition demoWorld :: World where
  "demoWorld =
     \<lparr>sha256 = (\<lambda>b. if b = ''node18web{}'' then 0 else 2 ^ 255),
      Glob = (\<lambda>s pattern. []),
      RunTask = (\<lambda>task root pkgMgr scripts s. (None, s)),
      dockerCmd = (\<lambda>args. None),
      marshalIndent = (\<lambda>m. if Reused m then ''reused'' else ''fresh''),
      elapsedMs = (\<lambda>task. 0),
      timeNow = ''2024-01-01T00:00:00Z''\<rparr>"

definition webTask :: Task where
  "webTask = \<lparr>Path = ''web'', Kind = ''node'', Version = ''18''\<rparr>"

text \<open>A workspace \<open>/ws\<close> with one Node project, before any build.\<close>

definition freshWorkspace :: fs where
  "freshWorkspace =
     [([''ws''], Directory),
      ([''ws'', ''web''], Directory),
      ([''ws'', ''web'', ''package.json''], File ''{}'')]"

text \<open>The same workspace after a first build has written its manifest.\<close>

definition builtWorkspace :: fs where
  "builtWorkspace =
     freshWorkspace @
     [([''ws'', ''out''], Directory),
      ([''ws'', ''out'', ''web''], Directory),
      ([''ws'', ''out'', ''web'', ''18''], Directory),
      ([''ws'', ''out'', ''web'', ''18'', ''manifest.json''], File ''fresh'')]"

text \<open>
  Two Node projects \<open>x\<close> and \<open>8x\<close> with the same \<open>package.json\<close>, and a task for each:
  Node 18 for \<open>x\<close> and Node 1 for \<open>8x\<close>.
\<close>

definition twoProjects :: fs where
  "twoProjects =
     [([''ws''], Directory),
      ([''ws'', ''x''], Directory),
      ([''ws'', ''x'', ''package.json''], File ''{}''),
      ([''ws'', ''8x''], Directory),
      ([''ws'', ''8x'', ''package.json''], File ''{}'')]"

definition taskX :: Task where
  "taskX = \<lparr>Path = ''x'', Kind = ''node'', Version = ''18''\<rparr>"

definition task8X :: Task where
  "task8X = \<lparr>Path = ''8x'', Kind = ''node'', Version = ''1''\<rparr>"

text \<open>Scenario D of the specification: a repository name with a shell metacharacter.\<close>

definition injectionConfig :: DockerConfig where
  "injectionConfig =
     \<lparr>Enabled = True, Repository = ''repo;rm -rf'', Tags = [], Push = True,
      Registries = [], Dockerfile = ''''\<rparr>"


definition defaultFlags :: Flags where
  "defaultFlags =
     \<lparr>flagNoCache = False, flagNoDocker = False, flagPushImages = False,
      flagDryRun = False, flagOnly = {}\<rparr>"


text \<open>
  A workspace in which the cache holds an entry for the key \<open>key\<close> while the output root
  \<open>out\<close> is a regular file, so that the output directory cannot be created.
\<close>

definition blockedWorkspace :: "string \<Rightarrow> fs" where
  "blockedWorkspace key =
     freshWorkspace @
     [([''ws'', ''.buildcache''], Directory),
      ([''ws'', ''.buildcache'', key], Directory),
      ([''ws'', ''.buildcache'', key, ''manifest.json''], File ''fresh''),
      ([''ws'', ''out''], File '''')]"

text \<open>The configuration \<open>webConfig\<close> without the Docker section.\<close>

definition plainConfig :: Root where
  "plainConfig =
     \<lparr>Runtime = \<lparr>Dotnet = \<lparr>Versions = []\<rparr>, Node = \<lparr>Versions = [''18'']\<rparr>\<rparr>,
      Matrix = [\<lparr>EntryPath = ''web'', Type = ''node'', Frameworks = [], NodeVersions = [],
                 PackageManager = ''npm'', BuildScripts = [''build''], Docker = None\<rparr>],
      Defaults = \<lparr>Concurrency = 1, ArtifactDir = ''out''\<rparr>\<rparr>"

text \<open>
  A delegated build that succeeds and writes nothing below the output root or the cache
  root: it leaves the file system as it is.
\<close>

definition quietBuild :: "Task \<Rightarrow> string \<Rightarrow> string \<Rightarrow> string list \<Rightarrow> fs \<Rightarrow> error option \<times> fs" where
  "quietBuild task root pkgMgr scripts s = (None, s)"

text \<open>
  The built workspace with a directory \<open>restored\<close> that already holds a file, and with a
  cache entry for the key \<open>000000000000\<close> that already holds a file \<open>old.bin\<close>.
\<close>

definition staleWorkspace :: fs where
  "staleWorkspace =
     builtWorkspace @
     [([''ws'', ''restored''], Directory),
      ([''ws'', ''restored'', ''stale.txt''], File ''old'')]"

definition cachedWorkspace :: fs where
  "cachedWorkspace =
     builtWorkspace @
     [([''ws'', ''.buildcache''], Directory),
      ([''ws'', ''.buildcache'', ''000000000000''], Directory),
      ([''ws'', ''.buildcache'', ''000000000000'', ''manifest.json''], File ''older''),
      ([''ws'', ''.buildcache'', ''000000000000'', ''old.bin''], File ''old'')]"

text \<open>
  The fresh workspace after a first build with the cache key \<open>key\<close> whose store found no
  output directory: the (empty) directory of the key, and the output directory with the
  manifest bytes \<open>manifestBytes\<close>.
\<close>

definition firstRunState :: "string \<Rightarrow> string \<Rightarrow> fs" where
  "firstRunState manifestBytes key =
     freshWorkspace @
     [([''ws'', ''.buildcache''], Directory),
      ([''ws'', ''.buildcache'', key], Directory),
      ([''ws'', ''out''], Directory),
      ([''ws'', ''out'', ''web''], Directory),
      ([''ws'', ''out'', ''web'', ''18''], Directory),
      ([''ws'', ''out'', ''web'', ''18'', ''manifest.json''], File manifestBytes)]"

text \<open>
  The built workspace whose output directory also holds a file with two dots in its
  name, which \<open>validatePath\<close> refuses; the cache is empty.
\<close>

definition dottedWorkspace :: fs where
  "dottedWorkspace =
     builtWorkspace @ [([''ws'', ''out'', ''web'', ''18'', ''notes..txt''], File ''n'')]"




section \<open>Properties of the path functions\<close>

lemma splitSlash_nonempty: "splitSlash s \<noteq> []"
  by (induction s) (auto split: list.splits)

lemma splitSlash_noSlash: "CHR ''/'' \<notin> set n \<Longrightarrow> splitSlash n = [n]"
  by (induction n) auto

lemma splitSlash_append:
  "splitSlash (a @ CHR ''/'' # b) = splitSlash a @ splitSlash b"
  by (induction a) (auto split: list.splits simp: splitSlash_nonempty)

lemma splitSlash_elems: "e \<in> set (splitSlash s) \<Longrightarrow> CHR ''/'' \<notin> set e"
  by (induction s arbitrary: e) (auto split: if_splits list.splits)

lemma splitSlash_joinSlash:
  "ns \<noteq> [] \<Longrightarrow> \<forall>n\<in>set ns. CHR ''/'' \<notin> set n \<Longrightarrow> splitSlash (joinSlash ns) = ns"
proof (induction ns rule: joinSlash.induct)
  case 1 then show ?case by simp
next
  case (2 x) then show ?case by (simp add: splitSlash_noSlash)
next
  case (3 x y r)
  then show ?case by (simp add: splitSlash_append splitSlash_noSlash)
qed

lemma cleanStep_validName: "validName n \<Longrightarrow> cleanStep r out n = out @ [n]"
  by (simp add: cleanStep_def validName_def)

lemma foldl_cleanStep_valid:
  "\<forall>n\<in>set ns. validName n \<Longrightarrow> foldl (cleanStep r) out ns = out @ ns"
  by (induction ns arbitrary: out) (auto simp: cleanStep_validName)

lemma isRooted_append: "x \<noteq> [] \<Longrightarrow> isRooted (x @ y) = isRooted x"
  by (cases x) (auto simp: isRooted_def)

lemma joinSlash_Cons: "ns \<noteq> [] \<Longrightarrow> joinSlash (x # ns) = x @ CHR ''/'' # joinSlash ns"
  by (cases ns) auto

lemma resolve_extend:
  assumes "x \<noteq> []" and "\<forall>n\<in>set ns. validName n"
  shows "resolve cwd (joinSlash (x # ns)) = resolve cwd x @ ns"
proof (cases ns)
  case Nil then show ?thesis by simp
next
  case (Cons n r)
  have ns: "ns \<noteq> []" using Cons by simp
  have sp: "splitSlash (joinSlash ns) = ns"
    using assms(2) ns by (intro splitSlash_joinSlash) (auto simp: validName_def)
  show ?thesis
    using assms ns
    by (simp add: joinSlash_Cons resolve_def isRooted_append splitSlash_append sp
        foldl_cleanStep_valid)
qed

lemma cleanStep_cases:
  "cleanStep r out x = out \<or> cleanStep r out x = butlast out \<or> 
   (cleanStep r out x = out @ [x] \<and> x \<noteq> '''' \<and> x \<noteq> ''.'')"
  unfolding cleanStep_def by (cases "x = ''''"; cases "x = ''.''"; cases "x = ''..''") simp_all

lemma cleanStep_set:
  assumes "e \<in> set (cleanStep r out x)" and "CHR ''/'' \<notin> set x"
  shows "e \<in> set out \<or> (e = x \<and> properElem x)"
proof -
  consider "cleanStep r out x = out" | "cleanStep r out x = butlast out"
    | "cleanStep r out x = out @ [x]" "x \<noteq> ''''" "x \<noteq> ''.''"
    using cleanStep_cases[of r out x] by blast
  then show ?thesis
  proof cases
    case 1 then show ?thesis using assms by simp
  next
    case 2 then show ?thesis using assms by (simp add: in_set_butlastD)
  next
    case 3 
    then have "properElem x" using assms(2) unfolding properElem_def by blast
    then show ?thesis using assms(1) 3(1) by auto
  qed
qed

lemma cleanStep_inv:
  assumes "\<forall>e\<in>set out. properElem e" and "CHR ''/'' \<notin> set x"
  shows "\<forall>e\<in>set (cleanStep r out x). properElem e"
  using cleanStep_set[OF _ assms(2)] assms(1) by blast

lemma foldl_cleanStep_inv:
  "\<forall>e\<in>set out. properElem e \<Longrightarrow> \<forall>x\<in>set xs. CHR ''/'' \<notin> set x \<Longrightarrow>
   \<forall>e\<in>set (foldl (cleanStep r) out xs). properElem e"
proof (induction xs arbitrary: out)
  case Nil then show ?case by simp
next
  case (Cons x xs)
  have "\<forall>e\<in>set (cleanStep r out x). properElem e"
    using Cons.prems by (intro cleanStep_inv) auto
  then show ?case using Cons by simp
qed

lemma cleanStep_True_snoc:
  "e \<noteq> '''' \<Longrightarrow> e \<noteq> ''.'' \<Longrightarrow> e \<noteq> ''..'' \<Longrightarrow> cleanStep True out e = out @ [e]"
  by (simp add: cleanStep_def)

lemma cleanStep_dotdot_snoc:
  "e \<noteq> ''..'' \<Longrightarrow> cleanStep r (out @ [e]) ''..'' = out"
  by (simp add: cleanStep_def)

lemma cleanStep_False_push:
  "\<not> (x = ''..'' \<and> st \<noteq> [] \<and> last st \<noteq> ''..'') \<Longrightarrow> x \<noteq> '''' \<Longrightarrow> x \<noteq> ''.'' \<Longrightarrow>
   cleanStep False st x = st @ [x]"
  unfolding cleanStep_def by (cases "x = ''..''") auto

lemma cleanStep_skip: "x = '''' \<or> x = ''.'' \<Longrightarrow> cleanStep r st x = st"
  unfolding cleanStep_def by (cases "x = ''''") simp_all

lemma resolve_step_commute:
  assumes "\<forall>e\<in>set st. properElem e"
  shows "foldl (cleanStep True) base (cleanStep False st x) =
         cleanStep True (foldl (cleanStep True) base st) x"
proof (cases "x = '''' \<or> x = ''.''")
  case True
  then show ?thesis by (simp add: cleanStep_skip)
next
  case nskip: False
  show ?thesis
  proof (cases "x = ''..'' \<and> st \<noteq> [] \<and> last st \<noteq> ''..''")
    case True
    then obtain st' e where st: "st = st' @ [e]" by (metis append_butlast_last_id)
    with True assms have e: "e \<noteq> ''''" "e \<noteq> ''.''" "e \<noteq> ''..''"
      by (auto simp: properElem_def)
    have 1: "cleanStep False st x = st'" using True st e by (simp add: cleanStep_dotdot_snoc)
    have 2: "foldl (cleanStep True) base st = foldl (cleanStep True) base st' @ [e]"
      using e st by (simp add: cleanStep_True_snoc)
    show ?thesis unfolding 1 2 using True e by (simp add: cleanStep_dotdot_snoc)
  next
    case False
    then have "cleanStep False st x = st @ [x]"
      using nskip by (intro cleanStep_False_push) auto
    then show ?thesis by simp
  qed
qed

lemma resolve_fold_commute:
  "\<forall>e\<in>set st. properElem e \<Longrightarrow> \<forall>x\<in>set xs. CHR ''/'' \<notin> set x \<Longrightarrow>
   foldl (cleanStep True) base (foldl (cleanStep False) st xs) =
   foldl (cleanStep True) (foldl (cleanStep True) base st) xs"
proof (induction xs arbitrary: st)
  case Nil then show ?case by simp
next
  case (Cons x xs)
  have "\<forall>e\<in>set (cleanStep False st x). properElem e"
    using Cons.prems by (intro cleanStep_inv) auto
  from Cons.IH[OF this] Cons.prems(2) show ?case
    by (simp add: resolve_step_commute[OF Cons.prems(1)])
qed

lemma validName_properElem: "validName e \<longleftrightarrow> properElem e \<and> e \<noteq> ''..''"
  unfolding validName_def properElem_def by blast

lemma cleanStep_True_cases:
  "cleanStep True out x = out \<or> cleanStep True out x = butlast out \<or> 
   (cleanStep True out x = out @ [x] \<and> x \<noteq> '''' \<and> x \<noteq> ''.'' \<and> x \<noteq> ''..'')"
  unfolding cleanStep_def by (cases "x = ''''"; cases "x = ''.''"; cases "x = ''..''") simp_all

lemma cleanStep_True_valid:
  assumes "\<forall>e\<in>set out. validName e" and "CHR ''/'' \<notin> set x"
  shows "\<forall>e\<in>set (cleanStep True out x). validName e"
proof -
  consider "cleanStep True out x = out" | "cleanStep True out x = butlast out"
    | "cleanStep True out x = out @ [x]" "x \<noteq> ''''" "x \<noteq> ''.''" "x \<noteq> ''..''"
    using cleanStep_True_cases[of out x] by blast
  then show ?thesis
  proof cases
    case 1 then show ?thesis using assms by simp
  next
    case 2 then show ?thesis using assms by (auto dest: in_set_butlastD)
  next
    case 3
    then have "validName x" using assms(2) unfolding validName_def by blast
    then show ?thesis using assms(1) 3(1) by auto
  qed
qed

lemma foldl_cleanStep_True_valid:
  "\<forall>e\<in>set out. validName e \<Longrightarrow> \<forall>x\<in>set xs. CHR ''/'' \<notin> set x \<Longrightarrow>
   \<forall>e\<in>set (foldl (cleanStep True) out xs). validName e"
proof (induction xs arbitrary: out)
  case Nil then show ?case by simp
next
  case (Cons x xs)
  have "\<forall>e\<in>set (cleanStep True out x). validName e"
    using Cons.prems by (intro cleanStep_True_valid) auto
  then show ?case using Cons by simp
qed

lemma resolve_valid: "\<forall>e\<in>set cwd. validName e \<Longrightarrow> \<forall>e\<in>set (resolve cwd p). validName e"
  unfolding resolve_def by (rule foldl_cleanStep_True_valid) (auto dest: splitSlash_elems)

lemma not_rooted_joinSlash:
  assumes "properElem a"
  shows "\<not> isRooted (joinSlash (a # as))"
proof -
  from assms obtain c cs where a: "a = c # cs" "c \<noteq> CHR ''/''"
    unfolding properElem_def by (cases a) auto
  show ?thesis using a by (cases as) (simp_all add: isRooted_def)
qed

lemma splitSlash_dot: "splitSlash ''.'' = [''.'']"
  by simp

lemma resolve_Clean: "resolve cwd (Clean p) = resolve cwd p"
proof (cases "isRooted p")
  case True
  let ?out = "foldl (cleanStep True) [] (splitSlash p)"
  have val: "\<forall>e\<in>set ?out. validName e"
    by (rule foldl_cleanStep_True_valid) (auto dest: splitSlash_elems)
  have C: "Clean p = CHR ''/'' # joinSlash ?out" using True by (simp add: Clean_def)
  have "resolve cwd (CHR ''/'' # joinSlash ?out)
        = foldl (cleanStep True) [] ('''' # splitSlash (joinSlash ?out))"
    by (simp add: resolve_def isRooted_def)
  also have "\<dots> = foldl (cleanStep True) [] (splitSlash (joinSlash ?out))"
    by (simp add: cleanStep_skip)
  also have "\<dots> = ?out"
  proof (cases "?out = []")
    case True then show ?thesis by (simp add: cleanStep_skip)
  next
    case False
    have "splitSlash (joinSlash ?out) = ?out"
      using False val by (intro splitSlash_joinSlash) (auto simp: validName_def)
    then show ?thesis using val foldl_cleanStep_valid[of ?out True "[]"] by simp
  qed
  finally show ?thesis using True C by (simp add: resolve_def)
next
  case False
  let ?out = "foldl (cleanStep False) [] (splitSlash p)"
  have inv: "\<forall>e\<in>set ?out. properElem e"
    by (rule foldl_cleanStep_inv) (auto dest: splitSlash_elems)
  have se: "\<forall>x\<in>set (splitSlash p). CHR ''/'' \<notin> set x"
    by (auto dest: splitSlash_elems)
  have R: "resolve cwd p = foldl (cleanStep True) cwd ?out"
    using resolve_fold_commute[OF _ se, of "[]" cwd] False
    by (simp add: resolve_def)
  show ?thesis
  proof (cases "?out = []")
    case True
    then have "Clean p = ''.''" using False by (simp add: Clean_def)
    then show ?thesis using R True by (simp add: resolve_def isRooted_def cleanStep_skip)
  next
    case ne: False
    then obtain a as where out: "?out = a # as" by (cases ?out) auto
    have C: "Clean p = joinSlash ?out" using False ne by (simp add: Clean_def)
    have nr: "\<not> isRooted (joinSlash ?out)"
      unfolding out using inv out by (intro not_rooted_joinSlash) simp
    have sp: "splitSlash (joinSlash ?out) = ?out"
      using ne inv by (intro splitSlash_joinSlash) (auto simp: properElem_def)
    show ?thesis unfolding C R using nr sp by (simp add: resolve_def)
  qed
qed

lemma Join_Cons_nonempty: "x \<noteq> [] \<Longrightarrow> Join (x # ns) = Clean (joinSlash (x # ns))"
  by (simp add: Join_def)

lemma resolve_Join:
  assumes "x \<noteq> []" and "\<forall>n\<in>set ns. validName n"
  shows "resolve cwd (Join (x # ns)) = resolve cwd x @ ns"
  using assms by (simp add: Join_Cons_nonempty resolve_Clean resolve_extend)

lemma resolve_Join_dot:
  assumes "x \<noteq> []"
  shows "resolve cwd (Join [x, ''.'']) = resolve cwd x"
proof -
  have r: "isRooted (x @ CHR ''/'' # ''.'') = isRooted x"
    using assms by (rule isRooted_append)
  have "resolve cwd (x @ CHR ''/'' # ''.'') = resolve cwd x"
    unfolding resolve_def r splitSlash_append splitSlash_dot foldl_append
    by (simp add: cleanStep_skip)
  then show ?thesis using assms by (simp add: Join_Cons_nonempty resolve_Clean)
qed

lemma resolve_Join_rel:
  assumes "x \<noteq> []" and "\<forall>n\<in>set ns. validName n" and "ns \<noteq> []"
  shows "resolve cwd (Join [x, joinSlash ns]) = resolve cwd x @ ns"
proof -
  have "joinSlash [x, joinSlash ns] = joinSlash (x # ns)"
    using assms(3) by (simp add: joinSlash_Cons)
  then have "Join [x, joinSlash ns] = Clean (joinSlash (x # ns))"
    using Join_Cons_nonempty[OF assms(1), of "[joinSlash ns]"] by simp
  then show ?thesis
    using resolve_extend[OF assms(1,2), of cwd] by (simp only: resolve_Clean)
qed

lemma joinSlash_snoc: "es \<noteq> [] \<Longrightarrow> joinSlash (es @ [l]) = joinSlash es @ CHR ''/'' # l"
  by (induction es rule: joinSlash.induct) simp_all

lemma joinSlash_splitSlash: "joinSlash (splitSlash p) = p"
proof (induction p)
  case Nil then show ?case by simp
next
  case (Cons c cs)
  obtain w ws where sp: "splitSlash cs = w # ws"
    using splitSlash_nonempty[of cs] by (cases "splitSlash cs") auto
  show ?case
  proof (cases "c = CHR ''/''")
    case True
    then show ?thesis using Cons sp by simp
  next
    case False
    then show ?thesis using Cons sp by (cases ws) simp_all
  qed
qed

lemma dropWhile_all: "\<forall>x\<in>set xs. P x \<Longrightarrow> dropWhile P xs = []"
  by (induction xs) simp_all

lemma splitSlash_strip:
  "splitSlash (rev (dropWhile (\<lambda>c. c \<noteq> CHR ''/'') (rev p))) = butlast (splitSlash p) @ ['''']"
proof -
  obtain es l where sp: "splitSlash p = es @ [l]"
    using splitSlash_nonempty[of p] by (metis rev_exhaust)
  have l: "CHR ''/'' \<notin> set l" and es: "\<forall>e\<in>set es. CHR ''/'' \<notin> set e"
    using splitSlash_elems[of _ p] sp by auto
  have dl: "dropWhile (\<lambda>c. c \<noteq> CHR ''/'') (rev l) = []"
    using l by (intro dropWhile_all) auto
  have p: "p = joinSlash (es @ [l])" using joinSlash_splitSlash[of p] sp by simp
  show ?thesis
  proof (cases "es = []")
    case True
    then have pl: "p = l" using p by simp
    have e: "rev (dropWhile (\<lambda>c. c \<noteq> CHR ''/'') (rev p)) = []"
      unfolding pl dl by simp
    show ?thesis unfolding e sp True by simp
  next
    case False
    then have p': "p = joinSlash es @ CHR ''/'' # l" using p by (simp add: joinSlash_snoc)
    have "dropWhile (\<lambda>c. c \<noteq> CHR ''/'') (rev p) = CHR ''/'' # rev (joinSlash es)"
      unfolding p' using l by (simp add: dropWhile_append3 dl dropWhile_append)
    then have "rev (dropWhile (\<lambda>c. c \<noteq> CHR ''/'') (rev p)) = joinSlash es @ CHR ''/'' # []"
      by simp
    then show ?thesis
      using splitSlash_joinSlash[OF False es] sp by (simp add: splitSlash_append)
  qed
qed

lemma isRooted_strip:
  "isRooted (rev (dropWhile (\<lambda>c. c \<noteq> CHR ''/'') (rev p))) = isRooted p"
proof (cases p)
  case Nil then show ?thesis by simp
next
  case (Cons c cs)
  show ?thesis
  proof (cases "c = CHR ''/''")
    case True
    have "dropWhile (\<lambda>c. c \<noteq> CHR ''/'') (rev cs @ [c]) = dropWhile (\<lambda>c. c \<noteq> CHR ''/'') (rev cs) @ [c]"
      using True by (simp add: dropWhile_append)
    then show ?thesis using Cons True by (simp add: isRooted_def)
  next
    case False
    have "\<not> isRooted p" using Cons False by (simp add: isRooted_def)
    moreover have "\<not> isRooted (rev (dropWhile (\<lambda>c. c \<noteq> CHR ''/'') (rev p)))"
    proof (cases "\<forall>x\<in>set cs. x \<noteq> CHR ''/''")
      case True
      then have "dropWhile (\<lambda>c. c \<noteq> CHR ''/'') (rev p) = []"
        using Cons False by (intro dropWhile_all) auto
      then have e: "rev (dropWhile (\<lambda>c. c \<noteq> CHR ''/'') (rev p)) = []"
        by (simp only: rev.simps)
      show ?thesis unfolding e isRooted_def by simp
    next
      case ex: False
      then have "dropWhile (\<lambda>c. c \<noteq> CHR ''/'') (rev cs) \<noteq> []"
        by (auto simp: dropWhile_eq_Nil_conv)
      then have "dropWhile (\<lambda>c. c \<noteq> CHR ''/'') (rev p) = dropWhile (\<lambda>c. c \<noteq> CHR ''/'') (rev cs) @ [c]"
        using Cons by (simp add: dropWhile_append)
      then show ?thesis using False by (simp add: isRooted_def)
    qed
    ultimately show ?thesis by simp
  qed
qed

text \<open>The directory of a path resolves to where the path resolves before its last element.\<close>

lemma resolve_Dir:
  "resolve cwd (Dir p) =
     foldl (cleanStep True) (if isRooted p then [] else cwd) (butlast (splitSlash p))"
  unfolding Dir_def resolve_Clean
  unfolding resolve_def splitSlash_strip isRooted_strip
  by (simp add: cleanStep_skip)

lemma resolve_last:
  "resolve cwd p = cleanStep True (resolve cwd (Dir p)) (last (splitSlash p))"
proof -
  have "splitSlash p = butlast (splitSlash p) @ [last (splitSlash p)]"
    using splitSlash_nonempty[of p] by simp
  then have "resolve cwd p = foldl (cleanStep True) (if isRooted p then [] else cwd)
                (butlast (splitSlash p) @ [last (splitSlash p)])"
    unfolding resolve_def by simp
  then show ?thesis unfolding resolve_Dir by simp
qed

lemma last_splitSlash_Join:
  assumes "x \<noteq> []" and "\<forall>n\<in>set ns. validName n" and "ns \<noteq> []"
  shows "last (splitSlash (Join (x # ns))) = last ns"
proof -
  let ?X = "joinSlash (x # ns)"
  have sp: "splitSlash (joinSlash ns) = ns"
    using assms(2,3) by (intro splitSlash_joinSlash) (auto simp: validName_def)
  have X: "splitSlash ?X = splitSlash x @ ns"
    using assms(3) by (simp add: joinSlash_Cons splitSlash_append sp)
  define r where "r = isRooted ?X"
  define out where "out = foldl (cleanStep r) [] (splitSlash ?X)"
  have out: "out = foldl (cleanStep r) [] (splitSlash x) @ ns"
    unfolding out_def X using assms(2) by (simp add: foldl_cleanStep_valid)
  have ne: "out \<noteq> []" and la: "last out = last ns" using out assms(3) by simp_all
  have inv: "\<forall>e\<in>set out. properElem e"
    unfolding out_def by (rule foldl_cleanStep_inv) (auto dest: splitSlash_elems)
  have so: "splitSlash (joinSlash out) = out"
    using ne inv by (intro splitSlash_joinSlash) (auto simp: properElem_def)
  have C: "Clean ?X = (if r then CHR ''/'' # joinSlash out else joinSlash out)"
    using ne unfolding Clean_def Let_def r_def[symmetric] out_def[symmetric] by simp
  have "splitSlash (CHR ''/'' # joinSlash out) = [] # out"
    using so by simp
  then have "last (splitSlash (Clean ?X)) = last out"
    unfolding C using so ne by simp
  then show ?thesis using la assms(1) by (simp add: Join_Cons_nonempty)
qed

lemma resolve_Dir_Join:
  assumes "x \<noteq> []" and "\<forall>n\<in>set ns. validName n" and "ns \<noteq> []"
  shows "resolve cwd (Dir (Join (x # ns))) = resolve cwd x @ butlast ns"
proof -
  have v: "validName (last ns)" using assms(2,3) by simp
  have "resolve cwd x @ ns = resolve cwd (Dir (Join (x # ns))) @ [last ns]"
    using resolve_last[of cwd "Join (x # ns)"] resolve_Join[OF assms(1,2), of cwd]
      last_splitSlash_Join[OF assms] cleanStep_validName[OF v] by simp
  moreover have "resolve cwd x @ ns = (resolve cwd x @ butlast ns) @ [last ns]"
    using assms(3) by simp
  ultimately show ?thesis by (metis append1_eq_conv)
qed

lemma resolve_Dir_Join_rel:
  assumes "x \<noteq> []" and "\<forall>n\<in>set ns. validName n" and "ns \<noteq> []"
  shows "resolve cwd (Dir (Join [x, joinSlash ns])) = resolve cwd x @ butlast ns"
proof -
  have "joinSlash [x, joinSlash ns] = joinSlash (x # ns)"
    using assms(3) by (simp add: joinSlash_Cons)
  then have "Join [x, joinSlash ns] = Join (x # ns)"
    using Join_Cons_nonempty[OF assms(1), of "[joinSlash ns]"] Join_Cons_nonempty[OF assms(1), of ns]
    by simp
  then show ?thesis using resolve_Dir_Join[OF assms] by simp
qed


section \<open>Properties of the cache key\<close>

lemma length_hexString: "length (hexString d) = 64"
  by (simp add: hexString_def)

lemma hexDigit_lowerHex: "n < 16 \<Longrightarrow> lowerHex (hexDigit n)"
  unfolding lowerHex_def hexDigit_def by (rule nth_mem) simp

lemma unat_take_bit_4: "unat (take_bit 4 (x :: 256 word)) < 16"
proof -
  have "unat (take_bit 4 x) = take_bit 4 (unat x)" by (simp add: unsigned_take_bit_eq)
  also have "\<dots> < 2 ^ 4" by (rule take_bit_nat_less_exp)
  finally show ?thesis by simp
qed

lemma hexString_lowerHex: "list_all lowerHex (hexString d)"
  by (simp add: hexString_def list_all_iff hexDigit_lowerHex unat_take_bit_4)

text \<open>
  Claim C10 (key derivation is total).  For every task, workspace root and file system
  (a missing project directory and missing lock files included) \<open>Key\<close> returns a key with
  a nil error; the key has 12 characters, all lower-case hexadecimal digits, so the slice
  \<open>[:12]\<close> is in range.  Hence the function of a task never takes the branch
  "cache key generation failed": it always continues with the derived key.
\<close>

theorem Key_total:
  "(\<exists>k. Key w cwd s task workspaceRoot = (k, None) \<and> length k = 12 \<and> list_all lowerHex k) \<and>
   buildTask w fl cfg cwd s task =
     taskBody w fl cfg cwd s task (fst (Key w cwd s task (Getwd cwd)))"
proof -
  let ?h = "hexString (sha256 w (keyInput w cwd s task workspaceRoot))"
  have "set (take 12 ?h) \<subseteq> set ?h" by (rule set_take_subset)
  then have "list_all lowerHex (take 12 ?h)"
    using hexString_lowerHex[of "sha256 w (keyInput w cwd s task workspaceRoot)"]
    by (auto simp: list_all_iff)
  then have "\<exists>k. Key w cwd s task workspaceRoot = (k, None) \<and> length k = 12 \<and>
      list_all lowerHex k"
    by (simp add: Key_def length_hexString)
  moreover have "buildTask w fl cfg cwd s task =
     taskBody w fl cfg cwd s task (fst (Key w cwd s task (Getwd cwd)))"
    by (simp add: buildTask_def Key_def)
  ultimately show ?thesis by blast
qed

lemma Lstat_ok_iff:
  "(case Lstat cwd s f of Inl _ \<Rightarrow> False | Inr _ \<Rightarrow> True) \<longleftrightarrow>
     f \<noteq> '''' \<and> lookup s (resolve cwd f) \<noteq> None"
  by (auto simp: Lstat_def split: option.splits)

lemma lockBytes_lookup:
  "lockBytes cwd s f =
     (case validatePath f of
        Some _ \<Rightarrow> []
      | None \<Rightarrow> if f = '''' then []
                else (case lookup s (resolve cwd f) of Some (File b) \<Rightarrow> b | _ \<Rightarrow> []))"
  by (auto simp: lockBytes_def readAll_def Lstat_def split: option.splits entry.splits)

lemma sort_cong_mset:
  fixes xs ys :: "string list"
  assumes "mset xs = mset ys" shows "sort xs = sort ys"
  by (rule properties_for_sort) (simp_all add: assms)

lemma findLockFiles_subset:
  "set (findLockFiles w cwd s (Join [root, Path task]) (Kind task))
     \<subseteq> set (lockCandidates w s task root)"
  unfolding findLockFiles_def lockCandidates_def Let_def by auto

lemma findLockFiles_cong:
  assumes G: "\<forall>pattern. mset (Glob w s' pattern) = mset (Glob w s pattern)"
    and F: "\<forall>f\<in>set (lockCandidates w s task root).
              lookup s' (resolve cwd f) = lookup s (resolve cwd f)"
  shows "mset (findLockFiles w cwd s' (Join [root, Path task]) (Kind task)) =
         mset (findLockFiles w cwd s (Join [root, Path task]) (Kind task))"
proof -
  let ?cands = "[Join [Join [root, Path task], ''package.json''],
           Join [Join [root, Path task], ''package-lock.json''],
           Join [Join [root, Path task], ''yarn.lock''],
           Join [Join [root, Path task], ''pnpm-lock.yaml'']]"
  have sub: "set ?cands \<subseteq> set (lockCandidates w s task root)"
    unfolding lockCandidates_def Let_def by auto
  have node: "filter (\<lambda>file. case Lstat cwd s' file of Inl _ \<Rightarrow> False | Inr _ \<Rightarrow> True) ?cands =
        filter (\<lambda>file. case Lstat cwd s file of Inl _ \<Rightarrow> False | Inr _ \<Rightarrow> True) ?cands"
    by (rule filter_cong[OF refl]) (use F sub in \<open>auto simp: Lstat_ok_iff\<close>)
  have dotnet: "mset (concat (map (\<lambda>pattern. Glob w s' (Join [Join [root, Path task], pattern])) ps))
      = mset (concat (map (\<lambda>pattern. Glob w s (Join [Join [root, Path task], pattern])) ps))" for ps
    by (induction ps) (simp_all add: G)
  show ?thesis
  proof (cases "Kind task = ''dotnet''")
    case True
    show ?thesis unfolding findLockFiles_def by (simp only: if_P[OF True] dotnet)
  next
    case nd: False
    show ?thesis
    proof (cases "Kind task = ''node''")
      case True
      show ?thesis unfolding findLockFiles_def by (simp only: if_not_P[OF nd] if_P[OF True] node)
    next
      case False
      show ?thesis unfolding findLockFiles_def by (simp only: if_not_P[OF nd] if_not_P[OF False])
    qed
  qed
qed

text \<open>
  Claim C2 (cache-key determinism).  The key of a task is the same in two file-system
  states whenever \<open>Glob\<close> finds the same files in both (in whatever order it lists them)
  and every lock or definition file the derivation can read has the same state and
  bytes in both.  In particular two calls on an unchanged file system return the
  identical key; changes elsewhere in the tree do not matter.
\<close>

theorem Key_deterministic:
  assumes G: "\<forall>pattern. mset (Glob w s' pattern) = mset (Glob w s pattern)"
    and F: "\<forall>f\<in>set (lockCandidates w s task workspaceRoot).
              lookup s' (resolve cwd f) = lookup s (resolve cwd f)"
  shows "Key w cwd s' task workspaceRoot = Key w cwd s task workspaceRoot"
proof -
  let ?dir = "Join [workspaceRoot, Path task]"
  have L: "sort (findLockFiles w cwd s' ?dir (Kind task)) = sort (findLockFiles w cwd s ?dir (Kind task))"
    by (rule sort_cong_mset) (rule findLockFiles_cong[OF G F])
  have B: "map (lockBytes cwd s') (sort (findLockFiles w cwd s ?dir (Kind task))) =
           map (lockBytes cwd s) (sort (findLockFiles w cwd s ?dir (Kind task)))"
  proof (rule map_cong[OF refl])
    fix f assume "f \<in> set (sort (findLockFiles w cwd s ?dir (Kind task)))"
    then have "f \<in> set (lockCandidates w s task workspaceRoot)"
      using findLockFiles_subset[of w cwd s workspaceRoot task] by auto
    then have "lookup s' (resolve cwd f) = lookup s (resolve cwd f)"
      using F by blast
    then show "lockBytes cwd s' f = lockBytes cwd s f"
      by (simp only: lockBytes_lookup)
  qed
  have "keyInput w cwd s' task workspaceRoot = keyInput w cwd s task workspaceRoot"
    unfolding keyInput_def Let_def L B ..
  then show ?thesis by (simp add: Key_def)
qed

theorem Key_deterministic_witness:
  "Key demoWorld [''ws''] builtWorkspace webTask ''/ws'' =
   Key demoWorld [''ws''] freshWorkspace webTask ''/ws''"
proof -
  have G: "\<forall>pattern. mset (Glob demoWorld builtWorkspace pattern) =
                      mset (Glob demoWorld freshWorkspace pattern)"
    by (simp add: demoWorld_def)
  have F: "\<forall>f\<in>set (lockCandidates demoWorld freshWorkspace webTask ''/ws'').
             lookup builtWorkspace (resolve [''ws''] f) = lookup freshWorkspace (resolve [''ws''] f)"
    by code_simp
  show ?thesis using Key_deterministic[OF G F] .
qed

lemma keyInput_taskX: "keyInput w [''ws''] twoProjects taskX ''/ws'' = ''node18x{}''"
  by code_simp

lemma keyInput_task8X: "keyInput w [''ws''] twoProjects task8X ''/ws'' = ''node18x{}''"
  by code_simp

text \<open>
  Claim C6 (key uniqueness across tasks) does not hold.  The three fields of the task are
  written to the hash one after the other without a separator, so Node 18 for the
  project \<open>x\<close> and Node 1 for the project \<open>8x\<close> feed the same bytes \<open>node18x{}\<close> when
  their \<open>package.json\<close> files are equal, and get the same key under every hash function.
\<close>

theorem Key_collision:
  "\<forall>w. fst (Key w [''ws''] twoProjects taskX ''/ws'') = fst (Key w [''ws''] twoProjects task8X ''/ws'')
       \<and> taskX \<noteq> task8X"
proof -
  have "taskX \<noteq> task8X" by (simp add: taskX_def task8X_def)
  then show ?thesis by (simp add: Key_def keyInput_taskX keyInput_task8X)
qed

lemma keyInput_fields:
  "\<exists>locks. keyInput w cwd s t root = Kind t @ (Version t @ Path t) @ locks"
  unfolding keyInput_def Let_def by simp

lemma keyInput_same_project:
  assumes "Kind t1 = Kind t2" and "Path t1 = Path t2"
  shows "\<exists>rest. keyInput w cwd s t1 root = Kind t1 @ Version t1 @ rest \<and>
               keyInput w cwd s t2 root = Kind t1 @ Version t2 @ rest"
  unfolding keyInput_def Let_def using assms by simp

lemma hd_differ: "x \<noteq> [] \<Longrightarrow> y \<noteq> [] \<Longrightarrow> hd x \<noteq> hd y \<Longrightarrow> x @ a \<noteq> y @ b"
  by (cases x; cases y) auto

lemma kinds_differ: "''dotnet'' @ a \<noteq> ''node'' @ b" "''node'' @ a \<noteq> ''dotnet'' @ b"
proof -
  have h: "hd ''dotnet'' \<noteq> hd ''node''" by code_simp
  have n: "''dotnet'' \<noteq> []" "''node'' \<noteq> []" by simp_all
  show "''dotnet'' @ a \<noteq> ''node'' @ b" using n h by (rule hd_differ)
  show "''node'' @ a \<noteq> ''dotnet'' @ b" using n(2,1) h[symmetric] by (rule hd_differ)
qed

lemma keyInput_kinds:
  assumes "Kind t1 \<in> {''dotnet'', ''node''}" and "Kind t2 \<in> {''dotnet'', ''node''}"
    and "Kind t1 \<noteq> Kind t2"
  shows "keyInput w cwd s t1 root \<noteq> keyInput w cwd s t2 root"
proof -
  obtain l1 where i1: "keyInput w cwd s t1 root = Kind t1 @ (Version t1 @ Path t1) @ l1"
    using keyInput_fields by blast
  obtain l2 where i2: "keyInput w cwd s t2 root = Kind t2 @ (Version t2 @ Path t2) @ l2"
    using keyInput_fields by blast
  from assms consider "Kind t1 = ''dotnet''" "Kind t2 = ''node''"
    | "Kind t1 = ''node''" "Kind t2 = ''dotnet''"
    unfolding insert_iff empty_iff by metis
  then show ?thesis
  proof cases
    case 1 show ?thesis unfolding i1 i2 1 by (rule kinds_differ(1))
  next
    case 2 show ?thesis unfolding i1 i2 2 by (rule kinds_differ(2))
  qed
qed

lemma keyInput_versions:
  assumes "Kind t1 = Kind t2" and "Path t1 = Path t2" and "Version t1 \<noteq> Version t2"
  shows "keyInput w cwd s t1 root \<noteq> keyInput w cwd s t2 root"
proof -
  obtain rest where r: "keyInput w cwd s t1 root = Kind t1 @ Version t1 @ rest"
    "keyInput w cwd s t2 root = Kind t1 @ Version t2 @ rest"
    using keyInput_same_project[OF assms(1,2)] by blast
  show ?thesis unfolding r using assms(3) by (simp only: same_append_eq append_same_eq not_False_eq_True)
qed

lemma keyInput_apart:
  assumes "Kind t1 = Kind t2"
    and "\<not> prefix (Version t1 @ Path t1) (Version t2 @ Path t2)"
    and "\<not> prefix (Version t2 @ Path t2) (Version t1 @ Path t1)"
  shows "keyInput w cwd s t1 root \<noteq> keyInput w cwd s t2 root"
proof
  obtain l1 where i1: "keyInput w cwd s t1 root = Kind t1 @ (Version t1 @ Path t1) @ l1"
    using keyInput_fields by blast
  obtain l2 where i2: "keyInput w cwd s t2 root = Kind t2 @ (Version t2 @ Path t2) @ l2"
    using keyInput_fields by blast
  assume "keyInput w cwd s t1 root = keyInput w cwd s t2 root"
  then have e: "(Version t1 @ Path t1) @ l1 = (Version t2 @ Path t2) @ l2"
    unfolding i1 i2 assms(1) by (simp only: same_append_eq)
  have "prefix (Version t1 @ Path t1) ((Version t2 @ Path t2) @ l2)"
    unfolding e[symmetric] by (rule prefixI) (rule refl)
  moreover have "prefix (Version t2 @ Path t2) ((Version t2 @ Path t2) @ l2)"
    by (rule prefixI) (rule refl)
  ultimately have "prefix (Version t1 @ Path t1) (Version t2 @ Path t2) \<or>
                   prefix (Version t2 @ Path t2) (Version t1 @ Path t1)"
    by (rule prefix_same_cases)
  then show False using assms(2,3) by blast
qed


lemma Key_eq_iff:
  assumes "inj_on (\<lambda>b. take 12 (hexString (sha256 w b)))
             {keyInput w cwd s t1 root, keyInput w cwd s t2 root}"
  shows "(fst (Key w cwd s t1 root) = fst (Key w cwd s t2 root)) =
         (keyInput w cwd s t1 root = keyInput w cwd s t2 root)"
proof -
  define i1 where "i1 = keyInput w cwd s t1 root"
  define i2 where "i2 = keyInput w cwd s t2 root"
  define f where "f = (\<lambda>b. take 12 (hexString (sha256 w b)))"
  have inj: "inj_on f {i1, i2}" using assms unfolding i1_def i2_def f_def .
  have k1: "fst (Key w cwd s t1 root) = f i1"
    unfolding Key_def fst_conv i1_def f_def ..
  have k2: "fst (Key w cwd s t2 root) = f i2"
    unfolding Key_def fst_conv i2_def f_def ..
  have "(f i1 = f i2) = (i1 = i2)"
    using inj by (auto simp: inj_on_def)
  then show ?thesis unfolding k1 k2 i1_def i2_def .
qed

text \<open>
  Claim C6 as amended.  The key is the first 12 hexadecimal digits of the digest of the
  bytes kind, version, path and lock-file contents, written one after the other.  For
  two tasks on whose two inputs the 12-digit prefix of the digest does not collide, the
  keys are equal exactly when these byte strings are equal.  So the keys differ
  \<^item> when the kinds differ (\<open>dotnet\<close> and \<open>node\<close>);
  \<^item> when kind and path are equal and the versions differ;
  \<^item> when the kinds are equal and neither of the strings version followed by path is
    a prefix of the other: for instance versions of equal length that differ, or equal
    versions with paths neither of which is a prefix of the other.
  Tasks of one kind for which one of these strings is a prefix of the other can feed the
  same bytes, as in the example above, and then get the same key.
\<close>

theorem Key_distinct_tasks:
  assumes "inj_on (\<lambda>b. take 12 (hexString (sha256 w b)))
             {keyInput w cwd s t1 root, keyInput w cwd s t2 root}"
  shows "((fst (Key w cwd s t1 root) = fst (Key w cwd s t2 root)) =
          (keyInput w cwd s t1 root = keyInput w cwd s t2 root)) \<and>
         (Kind t1 \<in> {''dotnet'', ''node''} \<and> Kind t2 \<in> {''dotnet'', ''node''} \<and>
          Kind t1 \<noteq> Kind t2 \<longrightarrow>
            fst (Key w cwd s t1 root) \<noteq> fst (Key w cwd s t2 root)) \<and>
         (Kind t1 = Kind t2 \<and> Path t1 = Path t2 \<and> Version t1 \<noteq> Version t2 \<longrightarrow>
            fst (Key w cwd s t1 root) \<noteq> fst (Key w cwd s t2 root)) \<and>
         (Kind t1 = Kind t2 \<and>
          \<not> prefix (Version t1 @ Path t1) (Version t2 @ Path t2) \<and>
          \<not> prefix (Version t2 @ Path t2) (Version t1 @ Path t1) \<longrightarrow>
            fst (Key w cwd s t1 root) \<noteq> fst (Key w cwd s t2 root))"
proof (intro conjI impI)
  note E = Key_eq_iff[OF assms]
  show "(fst (Key w cwd s t1 root) = fst (Key w cwd s t2 root)) =
        (keyInput w cwd s t1 root = keyInput w cwd s t2 root)" by (rule E)
  show "fst (Key w cwd s t1 root) \<noteq> fst (Key w cwd s t2 root)"
    if h: "Kind t1 \<in> {''dotnet'', ''node''} \<and> Kind t2 \<in> {''dotnet'', ''node''} \<and>
           Kind t1 \<noteq> Kind t2"
    unfolding E
    using keyInput_kinds[OF h[THEN conjunct1] h[THEN conjunct2, THEN conjunct1]
            h[THEN conjunct2, THEN conjunct2]] .
  show "fst (Key w cwd s t1 root) \<noteq> fst (Key w cwd s t2 root)"
    if h: "Kind t1 = Kind t2 \<and> Path t1 = Path t2 \<and> Version t1 \<noteq> Version t2"
    unfolding E
    using keyInput_versions[OF h[THEN conjunct1] h[THEN conjunct2, THEN conjunct1]
            h[THEN conjunct2, THEN conjunct2]] .
  show "fst (Key w cwd s t1 root) \<noteq> fst (Key w cwd s t2 root)"
    if h: "Kind t1 = Kind t2 \<and>
          \<not> prefix (Version t1 @ Path t1) (Version t2 @ Path t2) \<and>
          \<not> prefix (Version t2 @ Path t2) (Version t1 @ Path t1)"
    unfolding E
    using keyInput_apart[OF h[THEN conjunct1] h[THEN conjunct2, THEN conjunct1]
            h[THEN conjunct2, THEN conjunct2]] .
qed

theorem Key_distinct_tasks_witness:
  "fst (Key demoWorld [''ws''] freshWorkspace webTask ''/ws'') \<noteq>
   fst (Key demoWorld [''ws''] freshWorkspace (webTask\<lparr>Version := ''20''\<rparr>) ''/ws'')"
proof -
  have i1: "keyInput demoWorld [''ws''] freshWorkspace webTask ''/ws'' = ''node18web{}''"
    by code_simp
  have i2: "keyInput demoWorld [''ws''] freshWorkspace (webTask\<lparr>Version := ''20''\<rparr>) ''/ws''
              = ''node20web{}''"
    by code_simp
  have h0: "take 12 (hexString (0 :: 256 word)) = ''000000000000''" by code_simp
  have h1: "take 12 (hexString (2 ^ 255 :: 256 word)) = ''800000000000''" by code_simp
  have inj: "inj_on (\<lambda>b. take 12 (hexString (sha256 demoWorld b)))
           {keyInput demoWorld [''ws''] freshWorkspace webTask ''/ws'',
            keyInput demoWorld [''ws''] freshWorkspace (webTask\<lparr>Version := ''20''\<rparr>) ''/ws''}"
  proof -
    have d1: "sha256 demoWorld ''node18web{}'' = 0"
      and d2: "sha256 demoWorld ''node20web{}'' = 2 ^ 255"
      by (simp_all add: demoWorld_def)
    have "take 12 (hexString (sha256 demoWorld ''node18web{}'')) \<noteq>
          take 12 (hexString (sha256 demoWorld ''node20web{}''))"
      unfolding d1 d2 h0 h1 by simp
    then show ?thesis unfolding i1 i2 by (auto simp: inj_on_def)
  qed
  have h: "Kind webTask = Kind (webTask\<lparr>Version := ''20''\<rparr>) \<and>
           Path webTask = Path (webTask\<lparr>Version := ''20''\<rparr>) \<and>
           Version webTask \<noteq> Version (webTask\<lparr>Version := ''20''\<rparr>)"
    by (simp add: webTask_def)
  show ?thesis
    using Key_distinct_tasks[OF inj, THEN conjunct2, THEN conjunct2, THEN conjunct1, THEN mp, OF h] .
qed


section \<open>Properties of the file-system operations and of the cache store\<close>

lemma lookup_update:
  "p \<noteq> [] \<Longrightarrow> lookup (AList.update p e s) q = (if q = p then Some e else lookup s q)"
  by (simp add: lookup_def update_conv')

lemma Lstat_Inr: "Lstat cwd s p = Inr e \<longleftrightarrow> p \<noteq> '''' \<and> lookup s (resolve cwd p) = Some e"
  by (auto simp: Lstat_def split: option.splits)

lemma Lstat_Inl: "(\<exists>e. Lstat cwd s p = Inl e) \<longleftrightarrow> p = '''' \<or> lookup s (resolve cwd p) = None"
  by (auto simp: Lstat_def split: option.splits)

lemma mkdirStep_lookup:
  "lookup (foldl (\<lambda>t q. if lookup t q = None then AList.update q Directory t else t) s qs) q =
     (if q \<in> set qs \<and> lookup s q = None then Some Directory else lookup s q)"
proof (induction qs arbitrary: s)
  case Nil then show ?case by simp
next
  case (Cons a qs)
  have ne: "lookup s a = None \<Longrightarrow> a \<noteq> []" by (auto simp: lookup_def)
  show ?case
    by (cases "lookup s a = None") (auto simp: Cons.IH lookup_update ne)
qed

lemma mkdirAll_lookup:
  assumes "mkdirAll s p = Inr s'"
  shows "lookup s' q = (if prefix q p \<and> lookup s q = None then Some Directory else lookup s q)"
  using assms by (auto simp: mkdirAll_def mkdirStep_lookup in_set_prefixes split: if_splits)

lemma mkdirAll_target:
  assumes "mkdirAll s p = Inr s'" and "prefix q p"
  shows "lookup s' q = Some Directory"
proof -
  have nf: "\<not> isFile (lookup s q)"
    using assms by (auto simp: mkdirAll_def list_ex_iff in_set_prefixes split: if_splits)
  then have "lookup s q = None \<or> lookup s q = Some Directory"
    by (auto simp: isFile_def split: option.splits entry.splits)
  then show ?thesis using mkdirAll_lookup[OF assms(1), of q] assms(2) by auto
qed

lemma mkdirAll_preserves:
  assumes "mkdirAll s p = Inr s'" and "lookup s q = Some e"
  shows "lookup s' q = Some e"
  using mkdirAll_lookup[OF assms(1), of q] assms(2) by simp

lemma MkdirAll_Inr:
  "MkdirAll cwd s p = Inr s' \<longleftrightarrow> p \<noteq> '''' \<and> mkdirAll s (resolve cwd p) = Inr s'"
  by (simp add: MkdirAll_def)

lemma createFile_lookup:
  assumes "createFile s p = Inr s'"
  shows "p \<noteq> []" and "lookup s' q = (if q = p then Some (File []) else lookup s q)"
  using assms
  by (auto simp: createFile_def lookup_update split: if_splits option.splits entry.splits)

lemma Create_Inr:
  "Create cwd s p = Inr s' \<longleftrightarrow> p \<noteq> '''' \<and> createFile s (resolve cwd p) = Inr s'"
  by (simp add: Create_def)

lemma writeAll_lookup:
  "resolve cwd p \<noteq> [] \<Longrightarrow>
   lookup (writeAll cwd s p b) q = (if q = resolve cwd p then Some (File b) else lookup s q)"
  by (simp add: writeAll_def lookup_update)

lemma readAll_Inr:
  "readAll cwd s p = Inr b \<longleftrightarrow> p \<noteq> '''' \<and> lookup s (resolve cwd p) = Some (File b)"
  by (auto simp: readAll_def Lstat_def split: option.splits sum.splits entry.splits)

text \<open>What a successful \<open>copyFile\<close> does.\<close>

lemma copyFile_ok:
  assumes "copyFile cwd s src dest = (None, s')" and "resolve cwd src \<noteq> resolve cwd dest"
  shows "\<exists>b. lookup s (resolve cwd src) = Some (File b) \<and>
             lookup s' (resolve cwd dest) = Some (File b)"
    and "\<And>q e. q \<noteq> resolve cwd dest \<Longrightarrow> lookup s q = Some e \<Longrightarrow> lookup s' q = Some e"
proof -
  from assms(1) obtain e0 s1 s2 b where
    st: "Lstat cwd s src = Inr e0" and
    mk: "MkdirAll cwd s (Dir dest) = Inr s1" and
    cr: "Create cwd s1 dest = Inr s2" and
    rd: "readAll cwd s2 src = Inr b" and
    s': "s' = writeAll cwd s2 dest b"
    by (auto simp: copyFile_def split: option.splits sum.splits)
  let ?P = "resolve cwd src" and ?Q = "resolve cwd dest"
  from mk have mk': "mkdirAll s (resolve cwd (Dir dest)) = Inr s1" by (simp add: MkdirAll_Inr)
  from cr have cr': "createFile s1 ?Q = Inr s2" by (simp add: Create_Inr)
  have Qne: "?Q \<noteq> []" using createFile_lookup(1)[OF cr'] .
  have l2: "\<And>q. lookup s2 q = (if q = ?Q then Some (File []) else lookup s1 q)"
    using createFile_lookup(2)[OF cr'] .
  have l': "\<And>q. lookup s' q = (if q = ?Q then Some (File b) else lookup s2 q)"
    unfolding s' using writeAll_lookup[OF Qne] .
  from st have "lookup s ?P = Some e0" by (simp add: Lstat_Inr)
  then have "lookup s1 ?P = Some e0" by (rule mkdirAll_preserves[OF mk'])
  moreover from rd have "lookup s2 ?P = Some (File b)" by (simp add: readAll_Inr)
  ultimately have "e0 = File b" using assms(2) by (simp add: l2)
  then show "\<exists>b. lookup s ?P = Some (File b) \<and> lookup s' ?Q = Some (File b)"
    using \<open>lookup s ?P = Some e0\<close> l' by auto
  show "lookup s' q = Some e" if "q \<noteq> ?Q" "lookup s q = Some e" for q e
    using that mkdirAll_preserves[OF mk' that(2)] by (simp add: l' l2)
qed

lemma validFs_iff:
  "validFs cwd s \<longleftrightarrow> list_all validName cwd \<and> (\<forall>p\<in>fst ` set s. list_all validName p)"
  by (force simp: validFs_def list_all_iff)

lemma validFs_update:
  assumes "validFs cwd s" and "list_all validName p"
  shows "validFs cwd (AList.update p e s)"
  using assms by (simp add: validFs_iff dom_update)

lemma resolve_validName: "validFs cwd s \<Longrightarrow> list_all validName (resolve cwd p)"
  using resolve_valid[of cwd p] by (simp add: list_all_iff validFs_iff)

lemma validFs_mkdirStep:
  "validFs cwd s \<Longrightarrow> \<forall>q\<in>set qs. list_all validName q \<Longrightarrow>
   validFs cwd (foldl (\<lambda>t q. if lookup t q = None then AList.update q Directory t else t) s qs)"
  by (induction qs arbitrary: s) (simp_all add: validFs_update)

lemma prefix_validName: "list_all validName p \<Longrightarrow> prefix q p \<Longrightarrow> list_all validName q"
  by (auto simp: list_all_iff dest: set_mono_prefix)

lemma validFs_mkdirAll:
  assumes "validFs cwd s" and "list_all validName p" and "mkdirAll s p = Inr s'"
  shows "validFs cwd s'"
proof -
  have "\<forall>q\<in>set (prefixes p). list_all validName q"
    using assms(2) by (auto simp: in_set_prefixes intro: prefix_validName)
  from validFs_mkdirStep[OF assms(1) this] assms(3) show ?thesis
    by (simp add: mkdirAll_def split: if_splits)
qed

lemma validFs_MkdirAll:
  assumes "validFs cwd s" and "MkdirAll cwd s p = Inr s'"
  shows "validFs cwd s'"
proof -
  from assms(2) have "mkdirAll s (resolve cwd p) = Inr s'" by (simp add: MkdirAll_Inr)
  then show ?thesis using validFs_mkdirAll[OF assms(1) resolve_validName[OF assms(1)]] by blast
qed

lemma validFs_createFile:
  assumes "validFs cwd s" and "list_all validName p" and "createFile s p = Inr s'"
  shows "validFs cwd s'"
proof -
  from assms(3) have "s' = AList.update p (File []) s"
    by (simp add: createFile_def split: if_splits option.splits entry.splits)
  then show ?thesis using validFs_update[OF assms(1,2)] by simp
qed

lemma validFs_Create:
  assumes "validFs cwd s" and "Create cwd s p = Inr s'"
  shows "validFs cwd s'"
proof -
  from assms(2) have "createFile s (resolve cwd p) = Inr s'" by (simp add: Create_Inr)
  then show ?thesis using validFs_createFile[OF assms(1) resolve_validName[OF assms(1)]] by blast
qed

lemma validFs_writeAll:
  assumes "validFs cwd s"
  shows "validFs cwd (writeAll cwd s p b)"
  unfolding writeAll_def using assms resolve_validName[OF assms] by (rule validFs_update)

lemma copyFile_state:
  "snd (copyFile cwd s src dest) = s \<or>
   (\<exists>s1. MkdirAll cwd s (Dir dest) = Inr s1 \<and>
      (snd (copyFile cwd s src dest) = s1 \<or>
       (\<exists>s2. Create cwd s1 dest = Inr s2 \<and>
          (snd (copyFile cwd s src dest) = s2 \<or>
           (\<exists>b. snd (copyFile cwd s src dest) = writeAll cwd s2 dest b)))))"
  unfolding copyFile_def by (auto split: option.splits sum.splits)

lemma validFs_copyFile:
  assumes "validFs cwd s"
  shows "validFs cwd (snd (copyFile cwd s src dest))"
  using copyFile_state[of cwd s src dest] assms
    validFs_MkdirAll[of cwd s "Dir dest"] validFs_Create[of cwd _ dest] validFs_writeAll[of cwd]
  by metis

lemma validFs_copyVisit:
  assumes "validFs cwd s"
  shows "validFs cwd (snd (copyVisit cwd snap src dest p s))"
proof (cases "lookup snap p = Some Directory")
  case True
  show ?thesis
  proof (cases "MkdirAll cwd s (Join [dest, if drop (length (resolve cwd src)) p = [] then ''.''
                  else joinSlash (drop (length (resolve cwd src)) p)])")
    case (Inl e) then show ?thesis using True assms by (simp add: copyVisit_def Let_def)
  next
    case (Inr s1)
    then show ?thesis using True validFs_MkdirAll[OF assms Inr] by (simp add: copyVisit_def Let_def)
  qed
next
  case False
  then show ?thesis using validFs_copyFile[OF assms] by (simp add: copyVisit_def Let_def)
qed

lemma validFs_copyWalk:
  "validFs cwd s \<Longrightarrow> validFs cwd (snd (copyWalk cwd snap src dest ps s))"
proof (induction ps arbitrary: s)
  case Nil then show ?case by simp
next
  case (Cons p ps)
  have v: "validFs cwd (snd (copyVisit cwd snap src dest p s))"
    using Cons.prems by (rule validFs_copyVisit)
  show ?case
  proof (cases "copyVisit cwd snap src dest p s")
    case (Pair r s1)
    then show ?thesis using v Cons.IH[of s1] by (cases r) simp_all
  qed
qed

lemma validFs_copyDir:
  "validFs cwd s \<Longrightarrow> validFs cwd (snd (copyDir cwd s src dest))"
  using validFs_copyWalk[of cwd s s src dest] by (simp add: copyDir_def split: sum.splits)

lemma validFs_Store:
  assumes "validFs cwd s" shows "validFs cwd (snd (Store cwd s key src))"
proof (cases "MkdirAll cwd s (Join [''.buildcache'', key])")
  case (Inl e) then show ?thesis using assms by (simp add: Store_def)
next
  case (Inr s1)
  then show ?thesis using validFs_copyDir[OF validFs_MkdirAll[OF assms Inr]] by (simp add: Store_def)
qed

lemma apart_append_ne: "apart S D \<Longrightarrow> S @ a \<noteq> D @ b"
proof
  assume ap: "apart S D" and eq: "S @ a = D @ b"
  have "prefix S (D @ b)" using eq by (metis prefixI)
  moreover have "prefix D (D @ b)" by simp
  ultimately have "prefix S D \<or> prefix D S" by (rule prefix_same_cases)
  then show False using ap by (simp add: apart_def)
qed

lemma apart_not_below: "apart S D \<Longrightarrow> prefix S q \<Longrightarrow> q \<noteq> D @ b"
  using apart_append_ne[of S D] by (auto simp: prefix_def)

text \<open>One visit of the walk of \<open>copyDir\<close>.\<close>

lemma copyVisit_ok:
  assumes ok: "copyVisit cwd snap src dest p s = (None, s')"
    and pre: "prefix (resolve cwd src) p"
    and names: "list_all validName (drop (length (resolve cwd src)) p)"
    and ne: "src \<noteq> ''''" "dest \<noteq> ''''"
    and ap: "apart (resolve cwd src) (resolve cwd dest)"
  shows "lookup snap p = Some Directory \<Longrightarrow>
           lookup s' (resolve cwd dest @ drop (length (resolve cwd src)) p) = Some Directory"
    and "lookup snap p \<noteq> Some Directory \<Longrightarrow>
           \<exists>b. lookup s p = Some (File b) \<and>
               lookup s' (resolve cwd dest @ drop (length (resolve cwd src)) p) = Some (File b)"
    and "\<And>q e. q \<noteq> resolve cwd dest @ drop (length (resolve cwd src)) p \<Longrightarrow>
           lookup s q = Some e \<Longrightarrow> lookup s' q = Some e"
proof -
  let ?S = "resolve cwd src" and ?D = "resolve cwd dest"
  define names where "names = drop (length ?S) p"
  define path where "path = (if names = [] then src else Join (src # names))"
  define destPath where "destPath = Join [dest, if names = [] then ''.'' else joinSlash names]"
  have cv: "copyVisit cwd snap src dest p s =
     (if lookup snap p = Some Directory then
        (case MkdirAll cwd s destPath of
           Inl e \<Rightarrow> (Some (OsError e), s)
         | Inr s' \<Rightarrow> (None, s'))
      else copyFile cwd s path destPath)"
    unfolding copyVisit_def Let_def names_def path_def destPath_def ..
  have p: "p = ?S @ names" unfolding names_def using pre by (metis append_eq_conv_conj prefix_def)
  have v: "\<forall>n\<in>set names. validName n" using names by (simp add: list_all_iff names_def)
  have P: "resolve cwd path = p"
  proof (cases "names = []")
    case True then show ?thesis using p by (simp add: path_def)
  next
    case False
    then show ?thesis using resolve_Join[OF ne(1) v, of cwd] p by (simp add: path_def)
  qed
  have T: "resolve cwd destPath = ?D @ names"
  proof (cases "names = []")
    case True then show ?thesis using resolve_Join_dot[OF ne(2), of cwd] by (simp add: destPath_def)
  next
    case False
    then show ?thesis using resolve_Join_rel[OF ne(2) v False, of cwd] by (simp add: destPath_def)
  qed
  have PT: "resolve cwd path \<noteq> resolve cwd destPath"
    unfolding P T using apart_append_ne[OF ap, of names names] p by metis
  have mk: "mkdirAll s (?D @ names) = Inr s'" if d: "lookup snap p = Some Directory"
  proof -
    from ok d have "MkdirAll cwd s destPath = Inr s'"
      unfolding cv by (simp split: sum.splits)
    then show ?thesis by (simp add: MkdirAll_Inr T)
  qed
  have cp: "copyFile cwd s path destPath = (None, s')" if f: "lookup snap p \<noteq> Some Directory"
    using ok f unfolding cv by simp
  show "lookup s' (?D @ drop (length ?S) p) = Some Directory" if d: "lookup snap p = Some Directory"
    unfolding names_def[symmetric] using mk[OF d] by (rule mkdirAll_target) simp
  show "\<exists>b. lookup s p = Some (File b) \<and> lookup s' (?D @ drop (length ?S) p) = Some (File b)"
    if f: "lookup snap p \<noteq> Some Directory"
    unfolding names_def[symmetric] using copyFile_ok(1)[OF cp[OF f] PT] unfolding P T .
  show "lookup s' q = Some e" if q: "q \<noteq> ?D @ drop (length ?S) p" "lookup s q = Some e" for q e
  proof (cases "lookup snap p = Some Directory")
    case True
    show ?thesis using mk[OF True] q(2) by (rule mkdirAll_preserves)
  next
    case False
    show ?thesis using copyFile_ok(2)[OF cp[OF False] PT, of q e] q
      unfolding T names_def by simp
  qed
qed

lemma copyWalk_ok:
  assumes ok: "copyWalk cwd snap src dest ps s = (None, s')"
    and ps: "\<forall>p\<in>set ps. prefix (resolve cwd src) p \<and>
                 list_all validName (drop (length (resolve cwd src)) p)"
    and ne: "src \<noteq> ''''" "dest \<noteq> ''''"
    and ap: "apart (resolve cwd src) (resolve cwd dest)"
    and agree: "\<forall>q e. prefix (resolve cwd src) q \<longrightarrow> lookup snap q = Some e \<longrightarrow> lookup s q = Some e"
  shows "(\<forall>p\<in>set ps. \<forall>e. lookup snap p = Some e \<longrightarrow>
            lookup s' (resolve cwd dest @ drop (length (resolve cwd src)) p) = Some e) \<and>
         (\<forall>q e. lookup s q = Some e \<longrightarrow>
            (\<forall>p\<in>set ps. q \<noteq> resolve cwd dest @ drop (length (resolve cwd src)) p) \<longrightarrow>
            lookup s' q = Some e)"
  using ok ps agree
proof (induction ps arbitrary: s)
  case Nil
  then show ?case by simp
next
  case (Cons p ps)
  let ?S = "resolve cwd src" and ?D = "resolve cwd dest"
  let ?T = "\<lambda>p. ?D @ drop (length ?S) p"
  from Cons.prems(1) obtain s1 where
    v: "copyVisit cwd snap src dest p s = (None, s1)" and
    w: "copyWalk cwd snap src dest ps s1 = (None, s')"
    by (auto split: prod.splits option.splits)
  have pp: "prefix ?S p" "list_all validName (drop (length ?S) p)"
    using Cons.prems(2) by auto
  note V = copyVisit_ok[OF v pp ne ap]
  have agree1: "\<forall>q e. prefix ?S q \<longrightarrow> lookup snap q = Some e \<longrightarrow> lookup s1 q = Some e"
  proof (intro allI impI)
    fix q e assume q: "prefix ?S q" "lookup snap q = Some e"
    then have "lookup s q = Some e" using Cons.prems(3) by blast
    moreover have "q \<noteq> ?T p" using apart_not_below[OF ap q(1)] by blast
    ultimately show "lookup s1 q = Some e" using V(3) by blast
  qed
  have IH: "(\<forall>p\<in>set ps. \<forall>e. lookup snap p = Some e \<longrightarrow> lookup s' (?T p) = Some e) \<and>
         (\<forall>q e. lookup s1 q = Some e \<longrightarrow> (\<forall>p\<in>set ps. q \<noteq> ?T p) \<longrightarrow> lookup s' q = Some e)"
    using Cons.IH[OF w _ agree1] Cons.prems(2) by simp
  have head: "lookup s1 (?T p) = Some e" if e: "lookup snap p = Some e" for e
  proof (cases "e = Directory")
    case True then show ?thesis using V(1) e by simp
  next
    case False
    then have "lookup snap p \<noteq> Some Directory" using e by simp
    from V(2)[OF this] obtain b where b: "lookup s p = Some (File b)" "lookup s1 (?T p) = Some (File b)"
      by blast
    have "lookup s p = Some e" using Cons.prems(3) pp(1) e by blast
    then show ?thesis using b by simp
  qed
  have inj: "p' = p" if "?T p' = ?T p" "prefix ?S p'" for p'
  proof -
    have "drop (length ?S) p' = drop (length ?S) p" using that(1) by simp
    moreover have "p' = ?S @ drop (length ?S) p'" using that(2) by (metis append_eq_conv_conj prefix_def)
    moreover have "p = ?S @ drop (length ?S) p" using pp(1) by (metis append_eq_conv_conj prefix_def)
    ultimately show ?thesis by metis
  qed
  have one: "lookup s' (?T p) = Some e" if e: "lookup snap p = Some e" for e
  proof (cases "\<forall>p'\<in>set ps. ?T p \<noteq> ?T p'")
    case True
    then show ?thesis using IH head[OF e] by blast
  next
    case False
    then obtain p' where p': "p' \<in> set ps" "?T p = ?T p'" by blast
    then have "prefix ?S p'" using Cons.prems(2) by simp
    then have "p' = p" using inj[of p'] p'(2) by simp
    then show ?thesis using IH p'(1) e by blast
  qed
  have two: "lookup s' q = Some e"
    if q: "lookup s q = Some e" "\<forall>p'\<in>set (p # ps). q \<noteq> ?T p'" for q e
  proof -
    have "lookup s1 q = Some e" using V(3)[of q e] q by simp
    then show ?thesis using IH q(2) by simp
  qed
  show ?case using one two IH by (simp only: set_simps ball_simps) blast
qed

lemma set_walkPaths:
  "lookup s root = Some Directory \<Longrightarrow>
   set (walkPaths s root) = insert root {p \<in> fst ` set s. prefix root p}"
  by (auto simp: walkPaths_def)

lemma lookup_key: "lookup s p = Some e \<Longrightarrow> p \<noteq> [] \<Longrightarrow> p \<in> fst ` set s"
  by (metis lookup_def map_of_SomeD image_eqI fst_conv)

lemma key_lookup: "p \<in> fst ` set s \<Longrightarrow> lookup s p \<noteq> None"
  unfolding lookup_def using map_of_eq_None_iff[of s p] by simp

text \<open>What a successful \<open>copyDir\<close> of a directory does.\<close>

lemma copyDir_ok:
  assumes ok: "copyDir cwd s src dest = (None, s')"
    and dir: "lookup s (resolve cwd src) = Some Directory"
    and valid: "validFs cwd s"
    and ne: "dest \<noteq> ''''"
    and ap: "apart (resolve cwd src) (resolve cwd dest)"
  shows "\<And>rel e. lookup s (resolve cwd src @ rel) = Some e \<Longrightarrow>
           lookup s' (resolve cwd dest @ rel) = Some e"
    and "\<And>q e. lookup s q = Some e \<Longrightarrow>
           (\<And>rel. q = resolve cwd dest @ rel \<Longrightarrow> lookup s (resolve cwd src @ rel) = None) \<Longrightarrow>
           lookup s' q = Some e"
proof -
  let ?S = "resolve cwd src" and ?D = "resolve cwd dest"
  let ?ps = "walkPaths s ?S"
  from ok have src: "src \<noteq> ''''" and w: "copyWalk cwd s src dest ?ps s = (None, s')"
    by (auto simp: copyDir_def Lstat_def split: sum.splits if_splits)
  have set_ps: "set ?ps = insert ?S {p \<in> fst ` set s. prefix ?S p}"
    using dir by (rule set_walkPaths)
  have ps: "\<forall>p\<in>set ?ps. prefix ?S p \<and> list_all validName (drop (length ?S) p)"
  proof
    fix p assume "p \<in> set ?ps"
    then consider "p = ?S" | "p \<in> fst ` set s" "prefix ?S p" unfolding set_ps by blast
    then show "prefix ?S p \<and> list_all validName (drop (length ?S) p)"
    proof cases
      case 1 then show ?thesis by simp
    next
      case 2
      then have "list_all validName p" using valid unfolding validFs_iff by blast
      then have "list_all validName (drop (length ?S) p)"
        by (auto simp: list_all_iff dest: in_set_dropD)
      then show ?thesis using 2 by simp
    qed
  qed
  note W = copyWalk_ok[OF w ps src ne ap, simplified]
  show "lookup s' (?D @ rel) = Some e" if "lookup s (?S @ rel) = Some e" for rel e
  proof -
    have "?S @ rel \<in> set ?ps"
    proof (cases "?S @ rel = []")
      case True then show ?thesis unfolding set_ps by simp
    next
      case False
      then have "?S @ rel \<in> fst ` set s" using that by (intro lookup_key)
      then show ?thesis unfolding set_ps by simp
    qed
    then show ?thesis using W that by fastforce
  qed
  show "lookup s' q = Some e"
    if q: "lookup s q = Some e" and
       img: "\<And>rel. q = ?D @ rel \<Longrightarrow> lookup s (?S @ rel) = None" for q e
  proof -
    have "\<forall>p\<in>set ?ps. q \<noteq> ?D @ drop (length ?S) p"
    proof
      fix p assume p: "p \<in> set ?ps"
      then have pre: "prefix ?S p" using ps by blast
      then have eq: "p = ?S @ drop (length ?S) p" by (metis append_eq_conv_conj prefix_def)
      have "lookup s p \<noteq> None"
        using p dir key_lookup unfolding set_ps by auto
      then show "q \<noteq> ?D @ drop (length ?S) p" using img[of "drop (length ?S) p"] eq by metis
    qed
    then show ?thesis using W q by blast
  qed
qed

lemma apart_sym: "apart a b \<Longrightarrow> apart b a"
  by (simp add: apart_def)

lemma mkdirAll_apart_None:
  assumes "mkdirAll s C = Inr s1" and "apart S C" and "lookup s (S @ rel) = None"
  shows "lookup s1 (S @ rel) = None"
proof -
  have "\<not> prefix (S @ rel) C"
    using assms(2) by (metis apart_def append_prefixD)
  then show ?thesis using mkdirAll_lookup[OF assms(1), of "S @ rel"] assms(3) by simp
qed

lemma Clean_nonempty: "Clean p \<noteq> []"
proof (cases "isRooted p")
  case True then show ?thesis by (simp add: Clean_def)
next
  case False
  let ?out = "foldl (cleanStep False) [] (splitSlash p)"
  have inv: "\<forall>e\<in>set ?out. properElem e"
    by (rule foldl_cleanStep_inv) (auto dest: splitSlash_elems)
  show ?thesis
  proof (cases ?out)
    case Nil then show ?thesis using False by (simp add: Clean_def)
  next
    case (Cons a as)
    then have "a \<noteq> []" using inv by (auto simp: properElem_def)
    then have "joinSlash (a # as) \<noteq> []" by (cases as) auto
    then show ?thesis using False Cons by (simp add: Clean_def)
  qed
qed

lemma Join_nonempty: "x \<noteq> [] \<Longrightarrow> Join (x # ns) \<noteq> []"
  by (simp add: Join_Cons_nonempty Clean_nonempty)

lemma cacheDir_nonempty: "Join [''.buildcache'', key] \<noteq> []"
  by (rule Join_nonempty) simp

lemma validName_manifest: "validName ''manifest.json''"
  by (simp add: validName_def)

lemma Exists_iff:
  "Exists cwd s key \<longleftrightarrow>
     lookup s (resolve cwd (Join [''.buildcache'', key]) @ [''manifest.json'']) \<noteq> None"
proof -
  have "resolve cwd (Join [Join [''.buildcache'', key], ''manifest.json''])
        = resolve cwd (Join [''.buildcache'', key]) @ [''manifest.json'']"
    using resolve_Join[where x="Join [''.buildcache'', key]" and ns="[''manifest.json'']" and cwd=cwd]
      cacheDir_nonempty[of key] validName_manifest
    by simp
  moreover have "Join [Join [''.buildcache'', key], ''manifest.json''] \<noteq> []"
    using cacheDir_nonempty[of key] by (rule Join_nonempty)
  ultimately show ?thesis
    by (auto simp: Exists_def Let_def Lstat_def split: option.splits)
qed

text \<open>What a successful \<open>copyFile\<close> leaves at every path.\<close>

lemma copyFile_frame:
  assumes "copyFile cwd s src dest = (None, s')" and "resolve cwd src \<noteq> resolve cwd dest"
    and "q \<noteq> resolve cwd dest"
  shows "lookup s' q = (if prefix q (resolve cwd (Dir dest)) \<and> lookup s q = None
                        then Some Directory else lookup s q)"
proof -
  from assms(1) obtain e0 s1 s2 b where
    mk: "MkdirAll cwd s (Dir dest) = Inr s1" and
    cr: "Create cwd s1 dest = Inr s2" and
    s': "s' = writeAll cwd s2 dest b"
    by (auto simp: copyFile_def split: option.splits sum.splits)
  let ?Q = "resolve cwd dest"
  from mk have mk': "mkdirAll s (resolve cwd (Dir dest)) = Inr s1" by (simp add: MkdirAll_Inr)
  from cr have cr': "createFile s1 ?Q = Inr s2" by (simp add: Create_Inr)
  have Qne: "?Q \<noteq> []" using createFile_lookup(1)[OF cr'] .
  have "lookup s' q = lookup s2 q"
    unfolding s' using writeAll_lookup[OF Qne, of s2 b q] assms(3) by simp
  also have "\<dots> = lookup s1 q" using createFile_lookup(2)[OF cr', of q] assms(3) by simp
  also have "\<dots> = (if prefix q (resolve cwd (Dir dest)) \<and> lookup s q = None
                        then Some Directory else lookup s q)"
    using mkdirAll_lookup[OF mk', of q] .
  finally show ?thesis .
qed

lemma prefix_butlast_iff:
  assumes "T \<noteq> []" and "q \<noteq> T"
  shows "prefix q (butlast T) \<longleftrightarrow> strict_prefix q T"
proof -
  have T: "T = butlast T @ [last T]" using assms(1) by simp
  have "prefix q T \<longleftrightarrow> q = T \<or> prefix q (butlast T)"
    using prefix_snoc[of q "butlast T" "last T"] T by simp
  then show ?thesis using assms(2) by (auto simp: strict_prefix_def)
qed

text \<open>One visit of the walk changes nothing but its target and the missing directories above it.\<close>

lemma copyVisit_frame:
  assumes ok: "copyVisit cwd snap src dest p s = (None, s')"
    and pre: "prefix (resolve cwd src) p"
    and names: "list_all validName (drop (length (resolve cwd src)) p)"
    and ne: "src \<noteq> ''''" "dest \<noteq> ''''"
    and ap: "apart (resolve cwd src) (resolve cwd dest)"
    and below: "lookup snap p \<noteq> Some Directory \<Longrightarrow> p \<noteq> resolve cwd src"
    and q: "q \<noteq> resolve cwd dest @ drop (length (resolve cwd src)) p"
  shows "lookup s' q =
           (if strict_prefix q (resolve cwd dest @ drop (length (resolve cwd src)) p) \<and>
               lookup s q = None
            then Some Directory else lookup s q)"
proof -
  let ?S = "resolve cwd src" and ?D = "resolve cwd dest"
  define names where "names = drop (length ?S) p"
  define path where "path = (if names = [] then src else Join (src # names))"
  define destPath where "destPath = Join [dest, if names = [] then ''.'' else joinSlash names]"
  have cv: "copyVisit cwd snap src dest p s =
     (if lookup snap p = Some Directory then
        (case MkdirAll cwd s destPath of
           Inl e \<Rightarrow> (Some (OsError e), s)
         | Inr s' \<Rightarrow> (None, s'))
      else copyFile cwd s path destPath)"
    unfolding copyVisit_def Let_def names_def path_def destPath_def ..
  have p: "p = ?S @ names" unfolding names_def using pre by (metis append_eq_conv_conj prefix_def)
  have v: "\<forall>n\<in>set names. validName n" using names by (simp add: list_all_iff names_def)
  have q': "q \<noteq> ?D @ names" using q unfolding names_def .
  have P: "resolve cwd path = p"
  proof (cases "names = []")
    case True then show ?thesis using p by (simp add: path_def)
  next
    case False
    then show ?thesis using resolve_Join[OF ne(1) v, of cwd] p by (simp add: path_def)
  qed
  have T: "resolve cwd destPath = ?D @ names"
  proof (cases "names = []")
    case True then show ?thesis using resolve_Join_dot[OF ne(2), of cwd] by (simp add: destPath_def)
  next
    case False
    then show ?thesis using resolve_Join_rel[OF ne(2) v False, of cwd] by (simp add: destPath_def)
  qed
  have PT: "resolve cwd path \<noteq> resolve cwd destPath"
    unfolding P T using apart_append_ne[OF ap, of names names] p by metis
  show ?thesis
  proof (cases "lookup snap p = Some Directory")
    case True
    from ok True have "MkdirAll cwd s destPath = Inr s'"
      unfolding cv by (simp split: sum.splits)
    then have mk: "mkdirAll s (?D @ names) = Inr s'" by (simp add: MkdirAll_Inr T)
    have "prefix q (?D @ names) \<longleftrightarrow> strict_prefix q (?D @ names)"
      using q' by (auto simp: strict_prefix_def)
    then show ?thesis
      unfolding names_def[symmetric] using mkdirAll_lookup[OF mk, of q] by simp
  next
    case False
    have nn: "names \<noteq> []" using below[OF False] p by auto
    have cp: "copyFile cwd s path destPath = (None, s')" using ok False unfolding cv by simp
    have dp: "destPath = Join [dest, joinSlash names]" using nn by (simp add: destPath_def)
    have R: "resolve cwd (Dir destPath) = ?D @ butlast names"
      unfolding dp using resolve_Dir_Join_rel[OF ne(2) v nn, of cwd] .
    have bl: "butlast (?D @ names) = ?D @ butlast names" using nn by (simp add: butlast_append)
    have "prefix q (?D @ butlast names) \<longleftrightarrow> strict_prefix q (?D @ names)"
      using prefix_butlast_iff[of "?D @ names" q] nn q' bl by simp
    then show ?thesis
      unfolding names_def[symmetric]
      using copyFile_frame[OF cp PT, of q] q' unfolding T R by simp
  qed
qed

lemma copyWalk_frame:
  assumes ok: "copyWalk cwd snap src dest ps s = (None, s')"
    and ps: "\<forall>p\<in>set ps. prefix (resolve cwd src) p \<and>
                 list_all validName (drop (length (resolve cwd src)) p) \<and>
                 (lookup snap p \<noteq> Some Directory \<longrightarrow> p \<noteq> resolve cwd src)"
    and ne: "src \<noteq> ''''" "dest \<noteq> ''''"
    and ap: "apart (resolve cwd src) (resolve cwd dest)"
    and q: "\<forall>p\<in>set ps. q \<noteq> resolve cwd dest @ drop (length (resolve cwd src)) p"
  shows "lookup s' q =
           (if (\<exists>p\<in>set ps. strict_prefix q (resolve cwd dest @ drop (length (resolve cwd src)) p)) \<and>
               lookup s q = None
            then Some Directory else lookup s q)"
  using ok ps q
proof (induction ps arbitrary: s)
  case Nil
  then show ?case by simp
next
  case (Cons p ps)
  let ?S = "resolve cwd src" and ?D = "resolve cwd dest"
  let ?T = "\<lambda>p. ?D @ drop (length ?S) p"
  from Cons.prems(1) obtain s1 where
    v: "copyVisit cwd snap src dest p s = (None, s1)" and
    w: "copyWalk cwd snap src dest ps s1 = (None, s')"
    by (auto split: prod.splits option.splits)
  have pp: "prefix ?S p" "list_all validName (drop (length ?S) p)"
    "lookup snap p \<noteq> Some Directory \<Longrightarrow> p \<noteq> ?S"
    using Cons.prems(2) by auto
  have qp: "q \<noteq> ?T p" using Cons.prems(3) by simp
  have V: "lookup s1 q = (if strict_prefix q (?T p) \<and> lookup s q = None
                          then Some Directory else lookup s q)"
    using copyVisit_frame[OF v pp(1,2) ne ap pp(3) qp] .
  have IH: "lookup s' q = (if (\<exists>p\<in>set ps. strict_prefix q (?T p)) \<and> lookup s1 q = None
                           then Some Directory else lookup s1 q)"
    using Cons.IH[OF w] Cons.prems(2,3) by simp
  show ?case unfolding IH V by auto
qed

text \<open>
  A successful \<open>copyDir\<close>, at every path that is not the image of an entry of the source
  tree: only the missing directories above the destination appear.
\<close>

lemma copyDir_frame:
  assumes ok: "copyDir cwd s src dest = (None, s')"
    and dir: "lookup s (resolve cwd src) = Some Directory"
    and valid: "validFs cwd s"
    and ne: "dest \<noteq> ''''"
    and ap: "apart (resolve cwd src) (resolve cwd dest)"
    and closed: "\<forall>rel m. lookup s (resolve cwd src @ rel) \<noteq> None \<longrightarrow> prefix m rel \<longrightarrow>
                   lookup s (resolve cwd src @ m) \<noteq> None"
    and q: "\<forall>rel. q = resolve cwd dest @ rel \<longrightarrow> lookup s (resolve cwd src @ rel) = None"
  shows "lookup s' q = (if strict_prefix q (resolve cwd dest) \<and> lookup s q = None
                        then Some Directory else lookup s q)"
proof -
  let ?S = "resolve cwd src" and ?D = "resolve cwd dest"
  let ?ps = "walkPaths s ?S"
  let ?T = "\<lambda>p. ?D @ drop (length ?S) p"
  from ok have src: "src \<noteq> ''''" and w: "copyWalk cwd s src dest ?ps s = (None, s')"
    by (auto simp: copyDir_def Lstat_def split: sum.splits if_splits)
  have set_ps: "set ?ps = insert ?S {p \<in> fst ` set s. prefix ?S p}"
    using dir by (rule set_walkPaths)
  have inps: "prefix ?S p \<and> lookup s p \<noteq> None" if "p \<in> set ?ps" for p
    using that dir key_lookup unfolding set_ps by auto
  have ps: "\<forall>p\<in>set ?ps. prefix ?S p \<and> list_all validName (drop (length ?S) p) \<and>
              (lookup s p \<noteq> Some Directory \<longrightarrow> p \<noteq> ?S)"
  proof
    fix p assume "p \<in> set ?ps"
    then consider "p = ?S" | "p \<in> fst ` set s" "prefix ?S p" unfolding set_ps by blast
    then show "prefix ?S p \<and> list_all validName (drop (length ?S) p) \<and>
              (lookup s p \<noteq> Some Directory \<longrightarrow> p \<noteq> ?S)"
    proof cases
      case 1 then show ?thesis using dir by simp
    next
      case 2
      then have "list_all validName p" using valid unfolding validFs_iff by blast
      then have "list_all validName (drop (length ?S) p)"
        by (auto simp: list_all_iff dest: in_set_dropD)
      then show ?thesis using 2 dir by auto
    qed
  qed
  have decomp: "p = ?S @ drop (length ?S) p" if "prefix ?S p" for p
    using that by (metis append_eq_conv_conj prefix_def)
  have qn: "\<forall>p\<in>set ?ps. q \<noteq> ?T p"
  proof
    fix p assume p: "p \<in> set ?ps"
    have "lookup s (?S @ drop (length ?S) p) \<noteq> None"
      using inps[OF p] decomp[of p] by simp
    then show "q \<noteq> ?T p" using q[rule_format, of "drop (length ?S) p"] by blast
  qed
  have ex: "(\<exists>p\<in>set ?ps. strict_prefix q (?T p)) \<longleftrightarrow> strict_prefix q ?D"
  proof
    assume "\<exists>p\<in>set ?ps. strict_prefix q (?T p)"
    then obtain p where p: "p \<in> set ?ps" "strict_prefix q (?T p)" by blast
    define rel where "rel = drop (length ?S) p"
    have inS: "lookup s (?S @ rel) \<noteq> None"
      unfolding rel_def using inps[OF p(1)] decomp[of p] by simp
    have pq: "prefix q (?D @ rel)" using p(2) unfolding rel_def by (simp add: strict_prefix_def)
    then consider "prefix q ?D" | m where "q = ?D @ m" "prefix m rel"
      unfolding prefix_append by blast
    then show "strict_prefix q ?D"
    proof cases
      case 1
      have "q \<noteq> ?D" using q[rule_format, of "[]"] dir by auto
      then show ?thesis using 1 by (simp add: strict_prefix_def)
    next
      case 2
      have "lookup s (?S @ m) \<noteq> None" using closed[rule_format, OF inS 2(2)] .
      then show ?thesis using q[rule_format, OF 2(1)] by simp
    qed
  next
    assume "strict_prefix q ?D"
    moreover have "?S \<in> set ?ps" unfolding set_ps by simp
    ultimately show "\<exists>p\<in>set ?ps. strict_prefix q (?T p)" by (intro bexI[of _ ?S]) simp_all
  qed
  show ?thesis using copyWalk_frame[OF w ps src ne ap qn] unfolding ex .
qed

lemma copyDir_exact:
  assumes ok: "copyDir cwd s src dest = (None, s')"
    and dir: "lookup s (resolve cwd src) = Some Directory"
    and valid: "validFs cwd s"
    and ne: "dest \<noteq> ''''"
    and ap: "apart (resolve cwd src) (resolve cwd dest)"
    and closed: "\<forall>rel m. lookup s (resolve cwd src @ rel) \<noteq> None \<longrightarrow> prefix m rel \<longrightarrow>
                   lookup s (resolve cwd src @ m) \<noteq> None"
  shows "lookup s' (resolve cwd dest @ rel) =
           (case lookup s (resolve cwd src @ rel) of
              Some e \<Rightarrow> Some e
            | None \<Rightarrow> lookup s (resolve cwd dest @ rel))"
    and "\<not> prefix (resolve cwd dest) q \<Longrightarrow>
         lookup s' q = (if prefix q (resolve cwd dest) \<and> lookup s q = None
                        then Some Directory else lookup s q)"
proof -
  let ?S = "resolve cwd src" and ?D = "resolve cwd dest"
  show "lookup s' (?D @ rel) =
           (case lookup s (?S @ rel) of Some e \<Rightarrow> Some e | None \<Rightarrow> lookup s (?D @ rel))"
  proof (cases "lookup s (?S @ rel)")
    case (Some e)
    then show ?thesis using copyDir_ok(1)[OF ok dir valid ne ap, of rel e] by simp
  next
    case None
    have ns: "\<not> strict_prefix (?D @ rel) ?D" by (auto simp: strict_prefix_def)
    have "\<forall>r. ?D @ rel = ?D @ r \<longrightarrow> lookup s (?S @ r) = None" using None by simp
    then have F: "lookup s' (?D @ rel) =
        (if strict_prefix (?D @ rel) ?D \<and> lookup s (?D @ rel) = None
         then Some Directory else lookup s (?D @ rel))"
      by (rule copyDir_frame[OF ok dir valid ne ap closed])
    have c: "\<not> (strict_prefix (?D @ rel) ?D \<and> lookup s (?D @ rel) = None)" using ns by blast
    have "lookup s' (?D @ rel) = lookup s (?D @ rel)" using F unfolding if_not_P[OF c] .
    then show ?thesis unfolding None by simp
  qed
  show "lookup s' q = (if prefix q ?D \<and> lookup s q = None then Some Directory else lookup s q)"
    if nq: "\<not> prefix ?D q"
  proof -
    have "\<forall>r. q = ?D @ r \<longrightarrow> lookup s (?S @ r) = None" using nq by auto
    then have "lookup s' q = (if strict_prefix q ?D \<and> lookup s q = None
                              then Some Directory else lookup s q)"
      by (rule copyDir_frame[OF ok dir valid ne ap closed])
    moreover have "strict_prefix q ?D \<longleftrightarrow> prefix q ?D" using nq by (auto simp: strict_prefix_def)
    ultimately show ?thesis by simp
  qed
qed

lemma closedFs_below:
  assumes "closedFs s" and "lookup s (S @ rel) \<noteq> None" and "prefix m rel"
  shows "lookup s (S @ m) \<noteq> None"
proof (cases "S @ rel = []")
  case True
  then have "S @ m = []" using assms(3) by simp
  then show ?thesis by (simp add: lookup_def)
next
  case False
  obtain e where e: "lookup s (S @ rel) = Some e" using assms(2) by blast
  have "S @ rel \<in> fst ` set s" using e False by (rule lookup_key)
  then obtain e' where "(S @ rel, e') \<in> set s" by auto
  then have "\<forall>q\<in>set (prefixes (S @ rel)). lookup s q \<noteq> None"
    using assms(1) by (auto simp: closedFs_def list_all_iff)
  moreover have "prefix (S @ m) (S @ rel)" using assms(3) by simp
  ultimately show ?thesis by (simp add: in_set_prefixes)
qed

lemma apart_not_prefix_left: "apart S C \<Longrightarrow> \<not> prefix (S @ r) C"
  by (metis apart_def append_prefixD)

lemma apart_not_prefix_right: "apart S C \<Longrightarrow> \<not> prefix C (S @ r)"
proof
  assume ap: "apart S C" and "prefix C (S @ r)"
  moreover have "prefix S (S @ r)" by simp
  ultimately have "prefix C S \<or> prefix S C" using prefix_same_cases by blast
  then show False using ap by (auto simp: apart_def)
qed

text \<open>The state a successful \<open>Store\<close> leaves, at every path.\<close>

lemma Store_exact:
  assumes ok: "Store cwd s key sourceDir = (None, s')"
    and valid: "validFs cwd s"
    and dir: "lookup s (resolve cwd sourceDir) = Some Directory"
    and ap: "apart (resolve cwd sourceDir) (resolve cwd (Join [''.buildcache'', key]))"
    and closed: "\<forall>rel m. lookup s (resolve cwd sourceDir @ rel) \<noteq> None \<longrightarrow> prefix m rel \<longrightarrow>
                   lookup s (resolve cwd sourceDir @ m) \<noteq> None"
  shows "lookup s' (resolve cwd (Join [''.buildcache'', key]) @ rel) =
           (case lookup s (resolve cwd sourceDir @ rel) of
              Some e \<Rightarrow> Some e
            | None \<Rightarrow> lookup s (resolve cwd (Join [''.buildcache'', key]) @ rel))"
    and "\<not> prefix (resolve cwd (Join [''.buildcache'', key])) q \<Longrightarrow>
         lookup s' q = (if prefix q (resolve cwd (Join [''.buildcache'', key])) \<and> lookup s q = None
                        then Some Directory else lookup s q)"
proof -
  let ?S = "resolve cwd sourceDir" and ?cd = "Join [''.buildcache'', key]"
  let ?C = "resolve cwd ?cd"
  from ok obtain s1 where mk: "MkdirAll cwd s ?cd = Inr s1" and cp: "copyDir cwd s1 sourceDir ?cd = (None, s')"
    by (auto simp: Store_def Let_def split: sum.splits)
  from mk have cd: "?cd \<noteq> ''''" and mk': "mkdirAll s ?C = Inr s1" by (simp_all add: MkdirAll_Inr)
  have v1: "validFs cwd s1" using validFs_MkdirAll[OF valid mk] .
  have d1: "lookup s1 ?S = Some Directory" using mkdirAll_preserves[OF mk' dir] .
  have l1: "lookup s1 x = (if prefix x ?C \<and> lookup s x = None then Some Directory else lookup s x)" for x
    using mkdirAll_lookup[OF mk', of x] .
  have S1: "lookup s1 (?S @ r) = lookup s (?S @ r)" for r
    using l1[of "?S @ r"] apart_not_prefix_left[OF ap, of r] by simp
  have c1: "\<forall>rel m. lookup s1 (?S @ rel) \<noteq> None \<longrightarrow> prefix m rel \<longrightarrow> lookup s1 (?S @ m) \<noteq> None"
    unfolding S1 using closed .
  note CD = copyDir_exact[OF cp d1 v1 cd ap c1]
  show "lookup s' (?C @ rel) =
           (case lookup s (?S @ rel) of Some e \<Rightarrow> Some e | None \<Rightarrow> lookup s (?C @ rel))"
  proof (cases "lookup s (?S @ rel)")
    case (Some e)
    then show ?thesis using CD(1)[of rel] S1[of rel] by simp
  next
    case None
    then have "rel \<noteq> []" using dir by auto
    then have "\<not> prefix (?C @ rel) ?C" by auto
    then have "lookup s1 (?C @ rel) = lookup s (?C @ rel)" using l1[of "?C @ rel"] by simp
    then show ?thesis using CD(1)[of rel] S1[of rel] None by simp
  qed
  show "lookup s' q = (if prefix q ?C \<and> lookup s q = None then Some Directory else lookup s q)"
    if nq: "\<not> prefix ?C q"
  proof (cases "prefix q ?C")
    case True
    have "lookup s1 q = Some Directory" using mk' True by (rule mkdirAll_target)
    then show ?thesis using CD(2)[OF nq] l1[of q] by simp
  next
    case False
    then show ?thesis using CD(2)[OF nq] l1[of q] by simp
  qed
qed

text \<open>The state a successful \<open>Restore\<close> leaves, at every path.\<close>

lemma Restore_exact:
  assumes ok: "Restore cwd s key destDir = (None, s')"
    and valid: "validFs cwd s"
    and dir: "lookup s (resolve cwd (Join [''.buildcache'', key])) = Some Directory"
    and ap: "apart (resolve cwd (Join [''.buildcache'', key])) (resolve cwd destDir)"
    and closed: "\<forall>rel m. lookup s (resolve cwd (Join [''.buildcache'', key]) @ rel) \<noteq> None \<longrightarrow>
                   prefix m rel \<longrightarrow>
                   lookup s (resolve cwd (Join [''.buildcache'', key]) @ m) \<noteq> None"
  shows "lookup s' (resolve cwd destDir @ rel) =
           (case lookup s (resolve cwd (Join [''.buildcache'', key]) @ rel) of
              Some e \<Rightarrow> Some e
            | None \<Rightarrow> lookup s (resolve cwd destDir @ rel))"
    and "\<not> prefix (resolve cwd destDir) q \<Longrightarrow>
         lookup s' q = (if prefix q (resolve cwd destDir) \<and> lookup s q = None
                        then Some Directory else lookup s q)"
proof -
  let ?cd = "Join [''.buildcache'', key]"
  let ?C = "resolve cwd ?cd" and ?B = "resolve cwd destDir"
  from ok obtain s1 where mk: "MkdirAll cwd s destDir = Inr s1"
    and cp: "copyDir cwd s1 ?cd destDir = (None, s')"
    by (auto simp: Restore_def Let_def split: sum.splits if_splits)
  from mk have dd: "destDir \<noteq> ''''" and mk': "mkdirAll s ?B = Inr s1" by (simp_all add: MkdirAll_Inr)
  have v1: "validFs cwd s1" using validFs_MkdirAll[OF valid mk] .
  have d1: "lookup s1 ?C = Some Directory" using mkdirAll_preserves[OF mk' dir] .
  have l1: "lookup s1 x = (if prefix x ?B \<and> lookup s x = None then Some Directory else lookup s x)" for x
    using mkdirAll_lookup[OF mk', of x] .
  have S1: "lookup s1 (?C @ r) = lookup s (?C @ r)" for r
    using l1[of "?C @ r"] apart_not_prefix_left[OF ap, of r] by simp
  have c1: "\<forall>rel m. lookup s1 (?C @ rel) \<noteq> None \<longrightarrow> prefix m rel \<longrightarrow> lookup s1 (?C @ m) \<noteq> None"
    unfolding S1 using closed .
  note CD = copyDir_exact[OF cp d1 v1 dd ap c1]
  show "lookup s' (?B @ rel) =
           (case lookup s (?C @ rel) of Some e \<Rightarrow> Some e | None \<Rightarrow> lookup s (?B @ rel))"
  proof (cases "lookup s (?C @ rel)")
    case (Some e)
    then show ?thesis using CD(1)[of rel] S1[of rel] by simp
  next
    case None
    then have "rel \<noteq> []" using dir by auto
    then have "\<not> prefix (?B @ rel) ?B" by auto
    then have "lookup s1 (?B @ rel) = lookup s (?B @ rel)" using l1[of "?B @ rel"] by simp
    then show ?thesis using CD(1)[of rel] S1[of rel] None by simp
  qed
  show "lookup s' q = (if prefix q ?B \<and> lookup s q = None then Some Directory else lookup s q)"
    if nq: "\<not> prefix ?B q"
  proof (cases "prefix q ?B")
    case True
    have "lookup s1 q = Some Directory" using mk' True by (rule mkdirAll_target)
    then show ?thesis using CD(2)[OF nq] l1[of q] by simp
  next
    case False
    then show ?thesis using CD(2)[OF nq] l1[of q] by simp
  qed
qed

text \<open>No error of the copy is the not-found error of \<open>Restore\<close>.\<close>

lemma copyFile_error: "fst (copyFile cwd s src dest) \<noteq> Some (CacheKeyNotFound k)"
  by (auto simp: copyFile_def split: option.splits sum.splits)

lemma copyVisit_error: "fst (copyVisit cwd snap src dest p s) \<noteq> Some (CacheKeyNotFound k)"
  using copyFile_error by (auto simp: copyVisit_def Let_def split: sum.splits)

lemma copyWalk_error: "fst (copyWalk cwd snap src dest ps s) \<noteq> Some (CacheKeyNotFound k)"
proof (induction ps arbitrary: s)
  case Nil then show ?case by simp
next
  case (Cons p ps)
  show ?case
  proof (cases "copyVisit cwd snap src dest p s")
    case (Pair r s1)
    show ?thesis
    proof (cases r)
      case None then show ?thesis using Pair Cons.IH[of s1] by simp
    next
      case (Some e)
      then have "e \<noteq> CacheKeyNotFound k" using copyVisit_error[of cwd snap src dest p s k] Pair by simp
      then show ?thesis using Pair Some by simp
    qed
  qed
qed

lemma copyDir_error: "fst (copyDir cwd s src dest) \<noteq> Some (CacheKeyNotFound k)"
  using copyWalk_error by (auto simp: copyDir_def split: sum.splits)

lemma Restore_notFound_iff:
  "Restore cwd s key destDir = (Some (CacheKeyNotFound key), s) \<longleftrightarrow>
   lookup s (resolve cwd (Join [''.buildcache'', key]) @ [''manifest.json'']) = None"
proof (cases "Exists cwd s key")
  case False
  then show ?thesis using Exists_iff[of cwd s key] by (simp add: Restore_def)
next
  case True
  have "fst (Restore cwd s key destDir) \<noteq> Some (CacheKeyNotFound key)"
    using True copyDir_error[of cwd _ "Join [''.buildcache'', key]" destDir key]
    by (auto simp: Restore_def Let_def split: sum.splits)
  then have "Restore cwd s key destDir \<noteq> (Some (CacheKeyNotFound key), s)" by auto
  then show ?thesis using True Exists_iff[of cwd s key] by simp
qed


section \<open>Properties of the image publisher and of the scheduler\<close>

text \<open>
  Claim C9 (publish input validation).  For an enabled Docker section whose repository
  name contains a byte outside the allow-list (letters, digits, dot, underscore, slash,
  dash), \<open>BuildAndPush\<close> returns the validation error as its error value and has started
  no external command.
\<close>

theorem BuildAndPush_rejects_repository:
  assumes "Enabled dc" and "\<exists>c\<in>set (Repository dc). \<not> repoChar c"
  shows "BuildAndPush w cwd s projectPath (Some dc) workspaceRoot =
           (Some (SecurityCheckFailed (InvalidRepositoryName (Repository dc))), [])"
proof -
  have "\<not> list_all repoChar (Repository dc)" using assms(2) by (simp add: list_all_iff)
  then have "validateRepositoryName (Repository dc) = Some (InvalidRepositoryName (Repository dc))"
    by (simp add: validateRepositoryName_def)
  then show ?thesis using assms(1) by (simp add: BuildAndPush_def)
qed

theorem BuildAndPush_rejects_repository_witness:
  "BuildAndPush demoWorld [''ws''] freshWorkspace ''web'' (Some injectionConfig) ''/ws'' =
     (Some (SecurityCheckFailed (InvalidRepositoryName ''repo;rm -rf'')), [])"
proof -
  have e: "Enabled injectionConfig" by (simp add: injectionConfig_def)
  have r: "Repository injectionConfig = ''repo;rm -rf''" by (simp add: injectionConfig_def)
  have "\<not> repoChar CHR '';''" by code_simp
  then have b: "\<exists>c\<in>set (Repository injectionConfig). \<not> repoChar c" unfolding r by simp
  show ?thesis using BuildAndPush_rejects_repository[OF e b] unfolding r .
qed

lemma buildTask_taskBody:
  "buildTask w fl cfg cwd s task = taskBody w fl cfg cwd s task (fst (Key w cwd s task (Getwd cwd)))"
  by (simp add: buildTask_def Key_def)

lemma finishTask_sel:
  "sent (finishTask w cwd s task outDir k reused ws) = None"
  "logged (finishTask w cwd s task outDir k reused ws) = ws"
  "\<exists>m. written (finishTask w cwd s task outDir k reused ws) = Some m \<and> Reused m = reused \<and>
       after (finishTask w cwd s task outDir k reused ws) = snd (WriteManifest w cwd s outDir m)"
  by (simp_all add: finishTask_def Let_def)

lemma taskBody_hit:
  assumes "\<not> flagNoCache fl \<and> Exists cwd s k"
  shows "taskBody w fl cfg cwd s task k =
     (case Restore cwd s k (Join [''out'', Path task, Version task]) of
        (Some err, s') \<Rightarrow> \<lparr>sent = Some err, written = None, logged = [], after = s'\<rparr>
      | (None, s') \<Rightarrow> finishTask w cwd s' task (Join [''out'', Path task, Version task]) k True [])"
  unfolding taskBody_def Let_def if_P[OF assms] ..

lemma taskBody_miss:
  assumes "\<not> (\<not> flagNoCache fl \<and> Exists cwd s k)"
  shows "taskBody w fl cfg cwd s task k =
     (case RunTask w task (Getwd cwd) (pkgMgrOf cfg task) (scriptsOf cfg task) s of
        (Some runErr, s1) \<Rightarrow> \<lparr>sent = Some runErr, written = None, logged = [], after = s1\<rparr>
      | (None, s1) \<Rightarrow>
          finishTask w cwd
            (snd (if \<not> flagNoCache fl
                  then Store cwd s1 k (Join [''out'', Path task, Version task]) else (None, s1)))
            task (Join [''out'', Path task, Version task]) k False
            (List.map_filter id
               [publishError w fl cfg cwd s1 task,
                fst (if \<not> flagNoCache fl
                     then Store cwd s1 k (Join [''out'', Path task, Version task]) else (None, s1))]))"
  unfolding taskBody_def Let_def if_not_P[OF assms] ..

lemma errCh_nonempty: "errCh rs \<noteq> [] \<longleftrightarrow> (\<exists>r\<in>set rs. sent r \<noteq> None)"
  by (induction rs) (auto simp: errCh_def List.map_filter_simps split: option.splits)

lemma runBuild_aggregate:
  assumes "snd (runBuild w fl loaded cwd s) \<noteq> []"
  shows "(fst (runBuild w fl loaded cwd s) = Some ''one or more builds failed'') =
         (\<exists>r\<in>set (snd (runBuild w fl loaded cwd s)). sent r \<noteq> None)"
    and "fst (runBuild w fl loaded cwd s) \<noteq> Some ''one or more builds failed''
         \<Longrightarrow> fst (runBuild w fl loaded cwd s) = None"
  using assms errCh_nonempty
  by (auto simp: runBuild_def Let_def split: sum.splits if_splits option.splits)












section \<open>Whole runs\<close>

lemma lowerHex_chars: "lowerHex c \<Longrightarrow> c \<noteq> CHR ''/'' \<and> c \<noteq> CHR ''.''"
  unfolding lowerHex_def by auto

lemma hexKey_validName:
  assumes "length k = 12" and "list_all lowerHex k"
  shows "validName k"
proof -
  have "CHR ''/'' \<notin> set k" using assms(2) lowerHex_chars by (auto simp: list_all_iff)
  moreover have "k \<noteq> ''''" "k \<noteq> ''.''" "k \<noteq> ''..''" using assms(1) by auto
  ultimately show ?thesis by (simp add: validName_def)
qed

lemma resolve_cacheDir:
  assumes "validName k"
  shows "resolve cwd (Join [''.buildcache'', k]) = cwd @ [''.buildcache'', k]"
proof -
  have "resolve cwd ''.buildcache'' = cwd @ [''.buildcache'']"
    by (simp add: resolve_def isRooted_def cleanStep_def)
  then show ?thesis using resolve_Join[of "''.buildcache''" "[k]" cwd] assms by simp
qed


lemma Key_validName: "validName (fst (Key w cwd s task root))"
proof -
  let ?h = "hexString (sha256 w (keyInput w cwd s task root))"
  have "set (take 12 ?h) \<subseteq> set ?h" by (rule set_take_subset)
  then have "list_all lowerHex (take 12 ?h)"
    using hexString_lowerHex[of "sha256 w (keyInput w cwd s task root)"]
    by (auto simp: list_all_iff)
  then show ?thesis by (intro hexKey_validName) (simp_all add: Key_def length_hexString)
qed

lemma Exists_hexKey:
  "validName k \<Longrightarrow> Exists cwd s k \<longleftrightarrow> lookup s (cwd @ [''.buildcache'', k, ''manifest.json'']) \<noteq> None"
  by (simp add: Exists_iff resolve_cacheDir)

lemma plan_plainConfig: "Tasks (Expand plainConfig (flagOnly defaultFlags)) = [webTask]"
  by code_simp

lemma noDocker_plainConfig: "hasDockerProjects plainConfig [webTask] = False"
  by code_simp

lemma runBuild_plain:
  "runBuild w defaultFlags (Inr plainConfig) cwd s =
     (let r = buildTask w defaultFlags plainConfig cwd s webTask
      in (if sent r \<noteq> None then Some ''one or more builds failed'' else None, [r]))"
proof -
  have d: "flagDryRun defaultFlags = False" by (simp add: defaultFlags_def)
  show ?thesis
    by (simp add: runBuild_def Let_def plan_plainConfig noDocker_plainConfig d errCh_def
        List.map_filter_simps split: option.splits)
qed

lemma keyInput_fresh: "keyInput w [''ws''] freshWorkspace webTask (Getwd [''ws'']) = ''node18web{}''"
  by code_simp

lemma keyInput_blocked: "keyInput w [''ws''] (blockedWorkspace k) webTask (Getwd [''ws'']) = ''node18web{}''"
  by code_simp

lemma keyInput_firstRun: "keyInput w [''ws''] (firstRunState d k) webTask (Getwd [''ws'']) = ''node18web{}''"
  by code_simp

lemma Getwd_ws: "Getwd [''ws''] = ''/ws''" by code_simp

lemma Key_blocked:
  "fst (Key w [''ws''] (blockedWorkspace k) webTask (Getwd [''ws'']))
     = fst (Key w [''ws''] freshWorkspace webTask (Getwd [''ws'']))"
  by (simp add: Key_def keyInput_blocked keyInput_fresh)

lemma Key_firstRun:
  "fst (Key w [''ws''] (firstRunState d k) webTask (Getwd [''ws'']))
     = fst (Key w [''ws''] freshWorkspace webTask (Getwd [''ws'']))"
  by (simp add: Key_def keyInput_firstRun keyInput_fresh)

lemma outDir_web: "Join [''out'', Path webTask, Version webTask] = ''out/web/18''"
  by code_simp

lemma buildTask_blocked:
  assumes k: "k = fst (Key w [''ws''] freshWorkspace webTask (Getwd [''ws'']))"
  shows "buildTask w defaultFlags plainConfig [''ws''] (blockedWorkspace k) webTask =
           \<lparr>sent = Some (CreateDestDir (OsError ENOTDIR)), written = None, logged = [],
            after = blockedWorkspace k\<rparr>"
proof -
  have vk: "validName k" unfolding k by (rule Key_validName)
  have nc: "\<not> flagNoCache defaultFlags" by (simp add: defaultFlags_def)
  have ex: "Exists [''ws''] (blockedWorkspace k) k"
    unfolding Exists_hexKey[OF vk] by code_simp
  have mk: "MkdirAll [''ws''] (blockedWorkspace k) ''out/web/18'' = Inl ENOTDIR"
    by code_simp
  have re: "Restore [''ws''] (blockedWorkspace k) k ''out/web/18''
              = (Some (CreateDestDir (OsError ENOTDIR)), blockedWorkspace k)"
    using ex by (simp add: Restore_def mk)
  have hit: "\<not> flagNoCache defaultFlags \<and> Exists [''ws''] (blockedWorkspace k) k"
    using nc ex by simp
  show ?thesis
    unfolding buildTask_taskBody Key_blocked k[symmetric] taskBody_hit[OF hit] outDir_web re
    by simp
qed

text \<open>
  Claim C8 (exit-code classification) does not hold.  Whatever the hash function, let
  the cache hold an entry for the key of the task while the output root \<open>out\<close> is a
  regular file: the cache is hit, \<open>Restore\<close> fails because the output directory cannot
  be created, nothing else fails, and the process exits with the code of a build
  failure, not with the code of an internal error.
\<close>

theorem restore_failure_exits_1:
  "\<forall>w. buildExit w defaultFlags (Inr plainConfig) [''ws'']
          (blockedWorkspace (fst (Key w [''ws''] freshWorkspace webTask (Getwd [''ws'']))))
        = ExitBuildFailure \<and>
       map sent (snd (runBuild w defaultFlags (Inr plainConfig) [''ws'']
          (blockedWorkspace (fst (Key w [''ws''] freshWorkspace webTask (Getwd [''ws''])))))) 
        = [Some (CreateDestDir (OsError ENOTDIR))] \<and>
       ExitBuildFailure \<noteq> ExitInternalError"
proof
  fix w
  define k where "k = fst (Key w [''ws''] freshWorkspace webTask (Getwd [''ws'']))"
  have f: "fatal ''one or more builds failed'' = ExitBuildFailure" by code_simp
  have ne: "ExitBuildFailure \<noteq> ExitInternalError" by code_simp
  show "buildExit w defaultFlags (Inr plainConfig) [''ws'']
          (blockedWorkspace (fst (Key w [''ws''] freshWorkspace webTask (Getwd [''ws'']))))
        = ExitBuildFailure \<and>
       map sent (snd (runBuild w defaultFlags (Inr plainConfig) [''ws'']
          (blockedWorkspace (fst (Key w [''ws''] freshWorkspace webTask (Getwd [''ws''])))))) 
        = [Some (CreateDestDir (OsError ENOTDIR))] \<and>
       ExitBuildFailure \<noteq> ExitInternalError"
    unfolding k_def[symmetric] buildExit_def runBuild_plain Let_def buildTask_blocked[OF k_def]
    using f ne by simp
qed

text \<open>
  Claim C8 as amended.  Whenever some task of a run sends an error to the error channel,
  a failed restore included, \<open>runBuild\<close> returns the one aggregate error "one or more
  builds failed", which \<open>fatal\<close> classifies as a build failure: the process exits with
  code 1, not 3.
\<close>

theorem task_error_exit_code:
  assumes "snd (runBuild w fl loaded cwd s) \<noteq> []"
    and "\<exists>r\<in>set (snd (runBuild w fl loaded cwd s)). sent r \<noteq> None"
  shows "fst (runBuild w fl loaded cwd s) = Some ''one or more builds failed'' \<and>
         buildExit w fl loaded cwd s = ExitBuildFailure \<and>
         ExitBuildFailure = 1 \<and> ExitInternalError = 3"
proof -
  have f: "fatal ''one or more builds failed'' = ExitBuildFailure" by code_simp
  have r: "fst (runBuild w fl loaded cwd s) = Some ''one or more builds failed''"
    using runBuild_aggregate(1)[OF assms(1)] assms(2) by simp
  then show ?thesis by (simp add: buildExit_def f ExitBuildFailure_def ExitInternalError_def)
qed

theorem task_error_exit_code_witness:
  "fst (runBuild demoWorld defaultFlags (Inr plainConfig) [''ws''] (blockedWorkspace ''000000000000''))
     = Some ''one or more builds failed'' \<and>
   buildExit demoWorld defaultFlags (Inr plainConfig) [''ws''] (blockedWorkspace ''000000000000'')
     = ExitBuildFailure"
proof -
  have a: "snd (runBuild demoWorld defaultFlags (Inr plainConfig) [''ws'']
             (blockedWorkspace ''000000000000'')) \<noteq> []"
    by (simp add: runBuild_plain Let_def)
  have "sent (buildTask demoWorld defaultFlags plainConfig [''ws'']
            (blockedWorkspace ''000000000000'') webTask) \<noteq> None"
    by code_simp
  then have b: "\<exists>r\<in>set (snd (runBuild demoWorld defaultFlags (Inr plainConfig) [''ws'']
             (blockedWorkspace ''000000000000''))). sent r \<noteq> None"
    by (simp add: runBuild_plain Let_def)
  from task_error_exit_code[OF a b] show ?thesis by blast
qed

lemma store_fresh:
  assumes vk: "validName k"
  shows "Store [''ws''] freshWorkspace k ''out/web/18'' =
    (Some (OsError ENOENT),
     freshWorkspace @ [([''ws'', ''.buildcache''], Directory), ([''ws'', ''.buildcache'', k], Directory)])"
  apply (simp only: Store_def Let_def MkdirAll_def cacheDir_nonempty if_False resolve_cacheDir[OF vk])
  apply code_simp
  done

lemma manifest_fresh:
  "snd (WriteManifest w [''ws'']
          (freshWorkspace @ [([''ws'', ''.buildcache''], Directory), ([''ws'', ''.buildcache'', k], Directory)])
          ''out/web/18'' m)
     = firstRunState (marshalIndent w (m\<lparr>CreatedAt := timeNow w\<rparr>)) k"
  by code_simp

lemma miss_fresh:
  assumes vk: "validName k"
  shows "\<not> (\<not> flagNoCache defaultFlags \<and> Exists [''ws''] freshWorkspace k)"
  unfolding Exists_hexKey[OF vk] by code_simp

lemma miss_firstRun:
  assumes vk: "validName k"
  shows "\<not> (\<not> flagNoCache defaultFlags \<and> Exists [''ws''] (firstRunState d k) k)"
  unfolding Exists_hexKey[OF vk] by code_simp

lemma firstRun_task:
  assumes q: "RunTask w = quietBuild"
    and k: "k = fst (Key w [''ws''] freshWorkspace webTask (Getwd [''ws'']))"
  shows "sent (buildTask w defaultFlags plainConfig [''ws''] freshWorkspace webTask) = None \<and>
         (\<exists>d. after (buildTask w defaultFlags plainConfig [''ws''] freshWorkspace webTask)
                = firstRunState d k)"
proof -
  have vk: "validName k" unfolding k by (rule Key_validName)
  have nc: "\<not> flagNoCache defaultFlags" by (simp add: defaultFlags_def)
  have run: "RunTask w webTask (Getwd [''ws'']) (pkgMgrOf plainConfig webTask)
               (scriptsOf plainConfig webTask) freshWorkspace = (None, freshWorkspace)"
    by (simp add: q quietBuild_def)
  show ?thesis
    unfolding buildTask_taskBody k[symmetric] taskBody_miss[OF miss_fresh[OF vk]] run outDir_web
    using nc by (auto simp: finishTask_def Let_def store_fresh[OF vk] manifest_fresh)
qed

lemma secondRun_task:
  assumes q: "RunTask w = quietBuild"
    and k: "k = fst (Key w [''ws''] freshWorkspace webTask (Getwd [''ws'']))"
  shows "sent (buildTask w defaultFlags plainConfig [''ws''] (firstRunState d k) webTask) = None \<and>
         map_option Reused (written (buildTask w defaultFlags plainConfig [''ws'']
                                      (firstRunState d k) webTask)) = Some False"
proof -
  have vk: "validName k" unfolding k by (rule Key_validName)
  have run: "RunTask w webTask (Getwd [''ws'']) (pkgMgrOf plainConfig webTask)
               (scriptsOf plainConfig webTask) (firstRunState d k) = (None, firstRunState d k)"
    by (simp add: q quietBuild_def)
  show ?thesis
    unfolding buildTask_taskBody Key_firstRun k[symmetric] taskBody_miss[OF miss_firstRun[OF vk]] run
    by (simp add: finishTask_def Let_def)
qed

text \<open>
  Claim C1 (end-to-end cache reuse) fails on the code.  Take any world whose delegated
  build succeeds and leaves the file system as it is, a fresh workspace and default
  flags (caching enabled).  In the first run the task succeeds; its \<open>Store\<close> runs before
  the manifest is written, finds no output directory and fails, which is only logged.
  The entry of the key therefore has no manifest, \<open>Exists\<close> is false in the second run,
  the task is built again, and the manifest of the second run records
  \<open>reused = false\<close>.
\<close>

theorem second_run_not_reused:
  "\<forall>w. (let w' = w\<lparr>RunTask := quietBuild\<rparr>;
             first = runBuild w' defaultFlags (Inr plainConfig) [''ws''] freshWorkspace;
             second = runBuild w' defaultFlags (Inr plainConfig) [''ws'']
                        (after (last (snd first)))
         in fst first = None \<and> map sent (snd first) = [None] \<and>
            fst second = None \<and>
            map (\<lambda>r. map_option Reused (written r)) (snd second) = [Some False])"
proof
  fix w :: World
  define w' where "w' = w\<lparr>RunTask := quietBuild\<rparr>"
  define k where "k = fst (Key w' [''ws''] freshWorkspace webTask (Getwd [''ws'']))"
  have q: "RunTask w' = quietBuild" by (simp add: w'_def)
  from firstRun_task[OF q k_def] obtain d where
    s1: "sent (buildTask w' defaultFlags plainConfig [''ws''] freshWorkspace webTask) = None" and
    a1: "after (buildTask w' defaultFlags plainConfig [''ws''] freshWorkspace webTask)
           = firstRunState d k"
    by blast
  note r2 = secondRun_task[OF q k_def, of d]
  show "let w' = w\<lparr>RunTask := quietBuild\<rparr>;
             first = runBuild w' defaultFlags (Inr plainConfig) [''ws''] freshWorkspace;
             second = runBuild w' defaultFlags (Inr plainConfig) [''ws'']
                        (after (last (snd first)))
         in fst first = None \<and> map sent (snd first) = [None] \<and>
            fst second = None \<and>
            map (\<lambda>r. map_option Reused (written r)) (snd second) = [Some False]"
    unfolding Let_def w'_def[symmetric] runBuild_plain
    using s1 r2 by (simp add: a1)
qed

section \<open>Store and restore\<close>

text \<open>
  Claim C7 (whole-entry replacement) does not hold.  \<open>Store\<close> creates the directory of the
  key when it is missing and copies the source tree into it; it removes nothing.  Here
  the entry of the key already holds \<open>old.bin\<close>, the source directory has no such file,
  the store succeeds, and \<open>old.bin\<close> is still in the entry.
\<close>

theorem Store_keeps_prior_files:
  "fst (Store [''ws''] cachedWorkspace ''000000000000'' ''out/web/18'') = None \<and>
   lookup (snd (Store [''ws''] cachedWorkspace ''000000000000'' ''out/web/18''))
     (resolve [''ws''] (Join [''.buildcache'', ''000000000000'']) @ [''old.bin''])
     = Some (File ''old'') \<and>
   lookup cachedWorkspace (resolve [''ws''] ''out/web/18'' @ [''old.bin'']) = None"
  by code_simp

text \<open>
  Claim C7 as amended.  Let the source directory be named by a path in the form
  \<open>filepath.Clean\<close> returns, in a state whose paths are made of names and which is
  closed under parents, and let it lie apart from the directory of the entry: neither
  contains the other.  After \<open>Store(key, sourceDir)\<close>
  succeeds, the directory of the entry holds at every relative path the entry of the
  source tree, if the source tree has one there, and otherwise what it held before: the
  source tree is laid over the prior entry, nothing is removed and nothing else is
  added.  Outside the directory of the entry nothing changes but that the missing
  directories above it are created.  So the entry is exactly the tree of the source if
  and only if the prior entry held nothing at a relative path where the source tree
  has nothing.
\<close>

theorem Store_overlays:
  assumes "Store cwd s key sourceDir = (None, s')"
    and "validFs cwd s" and "closedFs s"
    and "Clean sourceDir = sourceDir"
    and "lookup s (resolve cwd sourceDir) = Some Directory"
    and "apart (resolve cwd sourceDir) (resolve cwd (Join [''.buildcache'', key]))"
  shows "(\<forall>rel. lookup s' (resolve cwd (Join [''.buildcache'', key]) @ rel) =
            (case lookup s (resolve cwd sourceDir @ rel) of
               Some e \<Rightarrow> Some e
             | None \<Rightarrow> lookup s (resolve cwd (Join [''.buildcache'', key]) @ rel))) \<and>
         (\<forall>q. \<not> prefix (resolve cwd (Join [''.buildcache'', key])) q \<longrightarrow>
            lookup s' q =
              (if prefix q (resolve cwd (Join [''.buildcache'', key])) \<and> lookup s q = None
               then Some Directory else lookup s q)) \<and>
         ((\<forall>rel. lookup s' (resolve cwd (Join [''.buildcache'', key]) @ rel) =
                 lookup s (resolve cwd sourceDir @ rel)) \<longleftrightarrow>
          (\<forall>rel. lookup s (resolve cwd sourceDir @ rel) = None \<longrightarrow>
                 lookup s (resolve cwd (Join [''.buildcache'', key]) @ rel) = None))"
proof -
  let ?S = "resolve cwd sourceDir" and ?C = "resolve cwd (Join [''.buildcache'', key])"
  have cl: "\<forall>rel m. lookup s (?S @ rel) \<noteq> None \<longrightarrow> prefix m rel \<longrightarrow> lookup s (?S @ m) \<noteq> None"
    using closedFs_below[OF assms(3)] by blast
  note E = Store_exact[OF assms(1,2,5,6) cl]
  have 1: "\<forall>rel. lookup s' (?C @ rel) =
            (case lookup s (?S @ rel) of Some e \<Rightarrow> Some e | None \<Rightarrow> lookup s (?C @ rel))"
    using E(1) by blast
  have 2: "\<forall>q. \<not> prefix ?C q \<longrightarrow>
            lookup s' q = (if prefix q ?C \<and> lookup s q = None then Some Directory else lookup s q)"
    using E(2) by blast
  have 3: "(\<forall>rel. lookup s' (?C @ rel) = lookup s (?S @ rel)) \<longleftrightarrow>
           (\<forall>rel. lookup s (?S @ rel) = None \<longrightarrow> lookup s (?C @ rel) = None)"
  proof
    assume a: "\<forall>rel. lookup s' (?C @ rel) = lookup s (?S @ rel)"
    show "\<forall>rel. lookup s (?S @ rel) = None \<longrightarrow> lookup s (?C @ rel) = None"
    proof (intro allI impI)
      fix rel assume n: "lookup s (?S @ rel) = None"
      have "lookup s' (?C @ rel) = lookup s (?C @ rel)" using E(1)[of rel] n by simp
      then show "lookup s (?C @ rel) = None" using a n by simp
    qed
  next
    assume b: "\<forall>rel. lookup s (?S @ rel) = None \<longrightarrow> lookup s (?C @ rel) = None"
    show "\<forall>rel. lookup s' (?C @ rel) = lookup s (?S @ rel)"
    proof
      fix rel
      show "lookup s' (?C @ rel) = lookup s (?S @ rel)"
        using E(1)[of rel] b by (cases "lookup s (?S @ rel)") simp_all
    qed
  qed
  show ?thesis using 1 2 3 by (intro conjI)
qed

theorem Store_overlays_witness:
  "lookup (snd (Store [''ws''] cachedWorkspace ''000000000000'' ''out/web/18''))
     (resolve [''ws''] (Join [''.buildcache'', ''000000000000'']) @ [''manifest.json''])
     = Some (File ''fresh'') \<and>
   lookup (snd (Store [''ws''] cachedWorkspace ''000000000000'' ''out/web/18''))
     (resolve [''ws''] (Join [''.buildcache'', ''000000000000'']) @ [''old.bin''])
     = Some (File ''old'') \<and>
   lookup (snd (Store [''ws''] cachedWorkspace ''000000000000'' ''out/web/18''))
     (resolve [''ws''] (Join [''.buildcache'', ''000000000000'']) @ [''new.bin''])
     = None"
proof -
  let ?s' = "snd (Store [''ws''] cachedWorkspace ''000000000000'' ''out/web/18'')"
  let ?C = "resolve [''ws''] (Join [''.buildcache'', ''000000000000''])"
  let ?S = "resolve [''ws''] ''out/web/18''"
  have ok: "Store [''ws''] cachedWorkspace ''000000000000'' ''out/web/18'' = (None, ?s')"
    by code_simp
  have v: "validFs [''ws''] cachedWorkspace" by code_simp
  have c: "closedFs cachedWorkspace" by code_simp
  have cl: "Clean ''out/web/18'' = ''out/web/18''" by code_simp
  have d: "lookup cachedWorkspace ?S = Some Directory" by code_simp
  have a: "apart ?S ?C" by code_simp
  have m: "lookup cachedWorkspace (?S @ [''manifest.json'']) = Some (File ''fresh'')"
    by code_simp
  have o: "lookup cachedWorkspace (?C @ [''old.bin'']) = Some (File ''old'')"
    "lookup cachedWorkspace (?S @ [''old.bin'']) = None"
    by code_simp+
  have n: "lookup cachedWorkspace (?C @ [''new.bin'']) = None"
    "lookup cachedWorkspace (?S @ [''new.bin'']) = None"
    by code_simp+
  note T = Store_overlays[OF ok v c cl d a, THEN conjunct1, rule_format]
  have c1: "lookup ?s' (?C @ [''manifest.json'']) = Some (File ''fresh'')"
    using T[of "[''manifest.json'']"] unfolding m by simp
  have c2: "lookup ?s' (?C @ [''old.bin'']) = Some (File ''old'')"
    using T[of "[''old.bin'']"] unfolding o by simp
  have c3: "lookup ?s' (?C @ [''new.bin'']) = None"
    using T[of "[''new.bin'']"] unfolding n by simp
  show ?thesis using c1 c2 c3 by (intro conjI)
qed

text \<open>
  Claim C5 (cache round-trip) does not hold as stated, in either half.  First, \<open>Restore\<close>
  copies the entry over whatever the destination holds: \<open>Store\<close> of \<open>out/web/18\<close> and
  \<open>Restore\<close> into \<open>restored\<close> both succeed, and the tree under \<open>restored\<close> still has the
  file \<open>stale.txt\<close>, which the source tree does not have.  Second, a key on which no
  \<open>Store\<close> has completed need not be unknown: with an empty cache, the \<open>Store\<close> of a tree
  that holds \<open>manifest.json\<close> and a file \<open>notes..txt\<close> copies the manifest and then fails
  on the second file, which \<open>validatePath\<close> refuses; the \<open>Restore\<close> of that key then
  succeeds and writes the manifest into the destination.
\<close>

theorem Restore_not_identical:
  "(fst (Store [''ws''] staleWorkspace ''000000000000'' ''out/web/18'') = None \<and>
    fst (Restore [''ws''] (snd (Store [''ws''] staleWorkspace ''000000000000'' ''out/web/18''))
           ''000000000000'' ''restored'') = None \<and>
    lookup (snd (Restore [''ws''] (snd (Store [''ws''] staleWorkspace ''000000000000'' ''out/web/18''))
                   ''000000000000'' ''restored''))
      (resolve [''ws''] ''restored'' @ [''stale.txt'']) = Some (File ''old'') \<and>
    lookup staleWorkspace (resolve [''ws''] ''out/web/18'' @ [''stale.txt'']) = None) \<and>
   (lookup dottedWorkspace [''ws'', ''.buildcache''] = None \<and>
    fst (Store [''ws''] dottedWorkspace ''000000000000'' ''out/web/18'')
      = Some (InvalidSourcePath (PathTraversal ''out/web/18/notes..txt'')) \<and>
    fst (Restore [''ws''] (snd (Store [''ws''] dottedWorkspace ''000000000000'' ''out/web/18''))
           ''000000000000'' ''restored'') = None \<and>
    lookup (snd (Restore [''ws''] (snd (Store [''ws''] dottedWorkspace ''000000000000'' ''out/web/18''))
                   ''000000000000'' ''restored''))
      (resolve [''ws''] ''restored'' @ [''manifest.json'']) = Some (File ''fresh''))"
  by code_simp

text \<open>
  Claim C5 as amended.  Let A and B be named by paths in the form \<open>filepath.Clean\<close>
  returns, in a state whose paths are made of names and which is closed under parents,
  with A a directory that lies apart from the directory of the entry, and the directory
  of the entry apart from B (neither contains the other).  When
  \<open>Store(key, A)\<close> and then \<open>Restore(key, B)\<close> succeed, the tree under B holds at every
  relative path the entry of A, if A has one there, otherwise what the cache entry
  held before, if it held something there, and otherwise what B held before; nothing
  else is added under B.  In particular, when the cache entry and B held nothing
  before, the tree under B is the tree of A, entry for entry and byte for byte.
  Outside B and the directory of the entry nothing changes but that the missing
  directories above them are created.  \<open>Restore\<close> returns the not-found error and
  leaves the file system as it was exactly when the directory of the key holds no
  \<open>manifest.json\<close>.
\<close>

theorem Store_Restore_roundtrip:
  assumes "Store cwd s key A = (None, s1)"
    and "Restore cwd s1 key B = (None, s2)"
    and "validFs cwd s" and "closedFs s"
    and "Clean A = A" and "Clean B = B"
    and "lookup s (resolve cwd A) = Some Directory"
    and "apart (resolve cwd A) (resolve cwd (Join [''.buildcache'', key]))"
    and "apart (resolve cwd (Join [''.buildcache'', key])) (resolve cwd B)"
  shows "(\<forall>rel. lookup s2 (resolve cwd B @ rel) =
            (case lookup s (resolve cwd A @ rel) of
               Some e \<Rightarrow> Some e
             | None \<Rightarrow>
                 (case lookup s (resolve cwd (Join [''.buildcache'', key]) @ rel) of
                    Some e \<Rightarrow> Some e
                  | None \<Rightarrow> lookup s (resolve cwd B @ rel)))) \<and>
         ((\<forall>rel. rel \<noteq> [] \<longrightarrow>
                 lookup s (resolve cwd (Join [''.buildcache'', key]) @ rel) = None \<and>
                 lookup s (resolve cwd B @ rel) = None) \<longrightarrow>
          (\<forall>rel. lookup s2 (resolve cwd B @ rel) = lookup s (resolve cwd A @ rel))) \<and>
         (\<forall>q. \<not> prefix (resolve cwd B) q \<and> \<not> prefix (resolve cwd (Join [''.buildcache'', key])) q \<longrightarrow>
            lookup s2 q =
              (if (prefix q (resolve cwd B) \<or> prefix q (resolve cwd (Join [''.buildcache'', key]))) \<and>
                  lookup s q = None
               then Some Directory else lookup s q)) \<and>
         (\<forall>t k d. (Restore cwd t k d = (Some (CacheKeyNotFound k), t)) =
                  (lookup t (resolve cwd (Join [''.buildcache'', k]) @ [''manifest.json'']) = None))"
proof -
  let ?A = "resolve cwd A" and ?C = "resolve cwd (Join [''.buildcache'', key])"
  let ?B = "resolve cwd B"
  have cl: "\<forall>rel m. lookup s (?A @ rel) \<noteq> None \<longrightarrow> prefix m rel \<longrightarrow> lookup s (?A @ m) \<noteq> None"
    using closedFs_below[OF assms(4)] by blast
  note S = Store_exact[OF assms(1,3,7,8) cl]
  have C1: "lookup s1 (?C @ rel) =
      (case lookup s (?A @ rel) of Some e \<Rightarrow> Some e | None \<Rightarrow> lookup s (?C @ rel))" for rel
    using S(1) .
  have v1: "validFs cwd s1" using validFs_Store[OF assms(3), of key A] assms(1) by simp
  have d1: "lookup s1 ?C = Some Directory" using C1[of "[]"] assms(7) by simp
  have cl1: "\<forall>rel m. lookup s1 (?C @ rel) \<noteq> None \<longrightarrow> prefix m rel \<longrightarrow> lookup s1 (?C @ m) \<noteq> None"
  proof (intro allI impI)
    fix rel m assume n: "lookup s1 (?C @ rel) \<noteq> None" and p: "prefix m rel"
    have "lookup s (?A @ rel) \<noteq> None \<or> lookup s (?C @ rel) \<noteq> None"
      using n unfolding C1 by (cases "lookup s (?A @ rel)") simp_all
    then have "lookup s (?A @ m) \<noteq> None \<or> lookup s (?C @ m) \<noteq> None"
      using closedFs_below[OF assms(4) _ p] by blast
    then show "lookup s1 (?C @ m) \<noteq> None"
      unfolding C1 by (cases "lookup s (?A @ m)") simp_all
  qed
  note R = Restore_exact[OF assms(2) v1 d1 assms(9) cl1]
  have B1: "lookup s1 (?B @ rel) = lookup s (?B @ rel)" for rel
  proof -
    have "\<not> prefix ?C (?B @ rel)"
      using apart_not_prefix_right[OF apart_sym[OF assms(9)], of rel] .
    moreover have "\<not> prefix (?B @ rel) ?C"
      using apart_not_prefix_left[OF apart_sym[OF assms(9)], of rel] .
    ultimately show ?thesis using S(2)[of "?B @ rel"] by simp
  qed
  have 1: "\<forall>rel. lookup s2 (?B @ rel) =
            (case lookup s (?A @ rel) of Some e \<Rightarrow> Some e
             | None \<Rightarrow> (case lookup s (?C @ rel) of Some e \<Rightarrow> Some e | None \<Rightarrow> lookup s (?B @ rel)))"
  proof
    fix rel
    show "lookup s2 (?B @ rel) =
            (case lookup s (?A @ rel) of Some e \<Rightarrow> Some e
             | None \<Rightarrow> (case lookup s (?C @ rel) of Some e \<Rightarrow> Some e | None \<Rightarrow> lookup s (?B @ rel)))"
      unfolding R(1)[of rel] C1[of rel] B1[of rel]
      by (cases "lookup s (?A @ rel)"; cases "lookup s (?C @ rel)") simp_all
  qed
  have 2: "(\<forall>rel. rel \<noteq> [] \<longrightarrow> lookup s (?C @ rel) = None \<and> lookup s (?B @ rel) = None) \<longrightarrow>
          (\<forall>rel. lookup s2 (?B @ rel) = lookup s (?A @ rel))"
  proof (intro impI allI)
    fix rel assume f: "\<forall>rel. rel \<noteq> [] \<longrightarrow> lookup s (?C @ rel) = None \<and> lookup s (?B @ rel) = None"
    show "lookup s2 (?B @ rel) = lookup s (?A @ rel)"
    proof (cases "rel = []")
      case True
      then show ?thesis using 1[rule_format, of "[]"] assms(7) by simp
    next
      case False
      then have "lookup s (?C @ rel) = None" "lookup s (?B @ rel) = None" using f by blast+
      then show ?thesis using 1[rule_format, of rel] by (cases "lookup s (?A @ rel)") simp_all
    qed
  qed
  have 3: "\<forall>q. \<not> prefix ?B q \<and> \<not> prefix ?C q \<longrightarrow>
            lookup s2 q = (if (prefix q ?B \<or> prefix q ?C) \<and> lookup s q = None
                           then Some Directory else lookup s q)"
  proof (intro allI impI)
    fix q assume q: "\<not> prefix ?B q \<and> \<not> prefix ?C q"
    have a: "lookup s2 q = (if prefix q ?B \<and> lookup s1 q = None then Some Directory else lookup s1 q)"
      using R(2)[of q] q by simp
    have b: "lookup s1 q = (if prefix q ?C \<and> lookup s q = None then Some Directory else lookup s q)"
      using S(2)[of q] q by simp
    show "lookup s2 q = (if (prefix q ?B \<or> prefix q ?C) \<and> lookup s q = None
                           then Some Directory else lookup s q)"
      unfolding a b by auto
  qed
  have 4: "\<forall>t k d. (Restore cwd t k d = (Some (CacheKeyNotFound k), t)) =
                  (lookup t (resolve cwd (Join [''.buildcache'', k]) @ [''manifest.json'']) = None)"
    using Restore_notFound_iff by blast
  show ?thesis using 1 2 3 4 by (intro conjI)
qed

theorem Store_Restore_roundtrip_witness:
  "lookup (snd (Restore [''ws''] (snd (Store [''ws''] staleWorkspace ''000000000000'' ''out/web/18''))
                  ''000000000000'' ''restored''))
     (resolve [''ws''] ''restored'' @ [''manifest.json'']) = Some (File ''fresh'') \<and>
   lookup (snd (Restore [''ws''] (snd (Store [''ws''] staleWorkspace ''000000000000'' ''out/web/18''))
                  ''000000000000'' ''restored''))
     (resolve [''ws''] ''restored'' @ [''other.txt'']) = None \<and>
   Restore [''ws''] staleWorkspace ''000000000000'' ''restored''
     = (Some (CacheKeyNotFound ''000000000000''), staleWorkspace)"
proof -
  let ?s1 = "snd (Store [''ws''] staleWorkspace ''000000000000'' ''out/web/18'')"
  let ?s2 = "snd (Restore [''ws''] ?s1 ''000000000000'' ''restored'')"
  let ?A = "resolve [''ws''] ''out/web/18''"
  let ?C = "resolve [''ws''] (Join [''.buildcache'', ''000000000000''])"
  let ?B = "resolve [''ws''] ''restored''"
  have st: "Store [''ws''] staleWorkspace ''000000000000'' ''out/web/18'' = (None, ?s1)"
    by code_simp
  have re: "Restore [''ws''] ?s1 ''000000000000'' ''restored'' = (None, ?s2)"
    by code_simp
  have v: "validFs [''ws''] staleWorkspace" by code_simp
  have c: "closedFs staleWorkspace" by code_simp
  have cA: "Clean ''out/web/18'' = ''out/web/18''" by code_simp
  have cB: "Clean ''restored'' = ''restored''" by code_simp
  have d: "lookup staleWorkspace ?A = Some Directory" by code_simp
  have a1: "apart ?A ?C" by code_simp
  have a2: "apart ?C ?B" by code_simp
  have m: "lookup staleWorkspace (?A @ [''manifest.json'']) = Some (File ''fresh'')"
    by code_simp
  have o: "lookup staleWorkspace (?A @ [''other.txt'']) = None"
    "lookup staleWorkspace (?C @ [''other.txt'']) = None"
    "lookup staleWorkspace (?B @ [''other.txt'']) = None"
    by code_simp+
  have u: "lookup staleWorkspace (?C @ [''manifest.json'']) = None" by code_simp
  note T = Store_Restore_roundtrip[OF st re v c cA cB d a1 a2]
  note T1 = T[THEN conjunct1, rule_format]
  have c1: "lookup ?s2 (?B @ [''manifest.json'']) = Some (File ''fresh'')"
    using T1[of "[''manifest.json'']"] unfolding m by simp
  have c2: "lookup ?s2 (?B @ [''other.txt'']) = None"
    using T1[of "[''other.txt'']"] unfolding o by simp
  have c3: "Restore [''ws''] staleWorkspace ''000000000000'' ''restored''
     = (Some (CacheKeyNotFound ''000000000000''), staleWorkspace)"
    using T[THEN conjunct2, THEN conjunct2, THEN conjunct2, rule_format,
            of staleWorkspace "''000000000000''" "''restored''"] u by simp
  show ?thesis using c1 c2 c3 by (intro conjI)
qed


section \<open>Properties of the planner\<close>

lemma inj_taskKey: "inj taskKey"
  by (rule injI) (simp add: taskKey_def)

lemma lessTask_key: "lessTask a b \<longleftrightarrow> taskKey a < taskKey b"
  by (auto simp: lessTask_def taskKey_def less_prod_def)

lemma taskOrder_key: "taskOrder a b \<longleftrightarrow> taskKey a \<le> taskKey b"
  by (auto simp: taskOrder_def taskKey_def less_eq_prod_def)

lemma sorted_wrt_taskOrder: "sorted_wrt taskOrder xs \<longleftrightarrow> sorted (map taskKey xs)"
  by (simp add: sorted_map taskOrder_key[abs_def])

lemma sorted_wrt_not_less:
  "sorted_wrt (\<lambda>a b. \<not> lessTask b a) xs \<longleftrightarrow> sorted (map taskKey xs)"
  by (simp add: sorted_map lessTask_key not_less)

lemma mset_insertSlice: "mset (insertSlice lt x xs) = add_mset x (mset xs)"
  by (induction xs) auto

lemma mset_sortSlice: "mset (sortSlice lt xs) = mset xs"
  by (induction xs) (auto simp: mset_insertSlice)

lemma set_insertSlice: "set (insertSlice lt x xs) = insert x (set xs)"
  by (induction xs) auto

lemma sorted_insertSlice:
  "sorted (map taskKey xs) \<Longrightarrow> sorted (map taskKey (insertSlice lessTask x xs))"
  by (induction xs) (auto simp: set_insertSlice lessTask_key)

lemma sorted_sortSlice: "sorted (map taskKey (sortSlice lessTask xs))"
  by (induction xs) (auto simp: sorted_insertSlice)

text \<open>
  Whatever permutation \<open>sort.Slice\<close> returns, it is this one: \<open>lessTask\<close> ties two
  tasks only when they are equal.
\<close>

lemma sortSlice_unique:
  assumes "mset ys = mset xs" and "sorted_wrt (\<lambda>a b. \<not> lessTask b a) ys"
  shows "ys = sortSlice lessTask xs"
proof -
  have "sort (map taskKey xs) = map taskKey ys"
    using assms by (intro properties_for_sort) (simp_all add: sorted_wrt_not_less)
  moreover have "sort (map taskKey xs) = map taskKey (sortSlice lessTask xs)"
    by (intro properties_for_sort) (simp_all add: sorted_sortSlice mset_sortSlice)
  ultimately have "map taskKey ys = map taskKey (sortSlice lessTask xs)" by simp
  then show ?thesis using inj_taskKey by (simp add: inj_map_eq_map)
qed

text \<open>
  Claim C3 (plan ordering).  For every configuration and selection filter the plan of
  \<open>Expand\<close> is sorted by path, then kind, then version, ascending; it holds exactly the
  tasks collected from the matrix; and every list that a sort of those tasks with the
  comparison of the source can return is that same plan, so repeated invocations on the
  same inputs give the identical ordered sequence.
\<close>

theorem Expand_ordered:
  "sorted_wrt taskOrder (Tasks (Expand cfg selected)) \<and>
   mset (Tasks (Expand cfg selected)) = mset (collectTasks cfg selected) \<and>
   (\<forall>ys. mset ys = mset (collectTasks cfg selected) \<and>
         sorted_wrt (\<lambda>a b. \<not> lessTask b a) ys
      \<longrightarrow> ys = Tasks (Expand cfg selected))"
  by (simp add: Expand_def sorted_wrt_taskOrder sorted_sortSlice mset_sortSlice
      sortSlice_unique)

lemma collect_scenarioB:
  "collectTasks scenarioB {} =
     [\<lparr>Path = ''web'', Kind = ''node'', Version = ''18.20.2''\<rparr>,
      \<lparr>Path = ''api'', Kind = ''dotnet'', Version = ''8.0.100''\<rparr>,
      \<lparr>Path = ''api'', Kind = ''dotnet'', Version = ''6.0.415''\<rparr>]"
  by (simp add: collectTasks_def scenarioB_def entryTasks_def)

theorem Expand_ordered_witness:
  "Tasks (Expand scenarioB {}) =
     [\<lparr>Path = ''api'', Kind = ''dotnet'', Version = ''6.0.415''\<rparr>,
      \<lparr>Path = ''api'', Kind = ''dotnet'', Version = ''8.0.100''\<rparr>,
      \<lparr>Path = ''web'', Kind = ''node'', Version = ''18.20.2''\<rparr>]"
proof -
  let ?ys = "[\<lparr>Path = ''api'', Kind = ''dotnet'', Version = ''6.0.415''\<rparr>,
      \<lparr>Path = ''api'', Kind = ''dotnet'', Version = ''8.0.100''\<rparr>,
      \<lparr>Path = ''web'', Kind = ''node'', Version = ''18.20.2''\<rparr>]"
  have m: "mset ?ys = mset (collectTasks scenarioB {})"
    by (simp add: collect_scenarioB)
  have s: "sorted_wrt (\<lambda>a b. \<not> lessTask b a) ?ys"
    by (simp add: lessTask_def)
  from Expand_ordered[of scenarioB "{}"] m s show ?thesis by metis
qed

end
